theory Spec2Isabelle
  imports Complex_Main
begin

section \<open>Frames, vertices and edges\<close>

text \<open>
  The traversal code of \<^verbatim>\<open>forward_trace_iterator\<close> and the declarations of
  \<^verbatim>\<open>metaprogram_builder\<close> are in the sources; the class \<^verbatim>\<open>data::metaprogram\<close>
  and the value types it stores are not. They are modelled here from the specification
  and from the way the sources use them. Vertices and edges are kept in append-only
  arenas and are named by their index.
\<close>

type_synonym vertex_descriptor = nat
type_synonym edge_descriptor = nat
type_synonym optional_edge_descriptor = "edge_descriptor option"

text \<open>Modelled from the spec: \<^verbatim>\<open>data::file_location\<close> is not among the sources; a
  source location is a file name with a row and a column.\<close>

datatype file_location = file_location string int int

text \<open>Modelled from the spec: \<^verbatim>\<open>data::event_kind\<close> is not among the sources; the
  kinds are the template-step kinds the specification names, followed by one kind for
  each of the other events the builder receives.\<close>

datatype event_kind =
    template_instantiation
  | template_specialization
  | memoization
  | macro_expansion
  | rescanning
  | expanded_code
  | generated_token
  | skipped_token
  | include_file
  | macro_definition
  | macro_deletion
  | preprocessing_condition
  | preprocessing_else
  | preprocessing_endif
  | error_directive
  | line_directive

text \<open>Modelled from the spec: \<^verbatim>\<open>data::metaprogram_node\<close> is not among the sources;
  it is the subject of a frame: a resolved type, a piece of code or a token.\<close>

datatype metaprogram_node =
    type_node string
  | cpp_code_node string
  | token_node string

text \<open>Modelled from the spec: \<^verbatim>\<open>data::type_or_code_or_error\<close> is not among the
  sources; the final result is a resolved type, a literal value or an error payload.\<close>

datatype type_or_code_or_error =
    result_type string
  | result_code string
  | result_error string

text \<open>Modelled from the spec: \<^verbatim>\<open>data::frame\<close> is not among the sources; a frame
  carries the subject, the source location of its definition and, when it was reached
  through an edge, the point of event and the kind of that edge.\<close>

record frame =
  frame_node :: metaprogram_node
  frame_source_location :: file_location
  frame_point_of_event :: "file_location option"
  frame_kind :: "event_kind option"

text \<open>Modelled from the spec: \<^verbatim>\<open>data::call_graph_node\<close> is not among the sources;
  the projection is a frame, its depth in the traversal and the number of children
  reported for it.\<close>

record call_graph_node =
  cgn_frame :: frame
  cgn_depth :: int
  cgn_number_of_children :: nat

record vertex_property =
  vp_node :: metaprogram_node
  vp_source_location :: file_location
  vp_condition_result :: "bool option"

record edge_property =
  ep_source :: vertex_descriptor
  ep_target :: vertex_descriptor
  ep_kind :: event_kind
  ep_point_of_event :: file_location
  ep_begin_timestamp :: real
  ep_enabled :: bool

section \<open>The metaprogram graph\<close>

datatype mode_t = full | minimized

record state_t =
  discovered :: "bool list"

text \<open>Modelled from the spec: the class \<^verbatim>\<open>data::metaprogram\<close> is not among the
  sources. It owns the vertex and edge store, the discovered set (inside its state), the
  mode, the root vertex and the final result. The current edge is what
  \<^verbatim>\<open>get_current_edge()\<close> returns to the iterator's constructor: an optional edge.\<close>

record metaprogram =
  mp_mode :: mode_t
  mp_vertices :: "vertex_property list"
  mp_edges :: "edge_property list"
  mp_root_vertex :: vertex_descriptor
  mp_state :: state_t
  mp_current_edge :: optional_edge_descriptor
  mp_evaluation_result :: "type_or_code_or_error option"

definition num_vertices :: "metaprogram \<Rightarrow> nat" where
  "num_vertices g = length (mp_vertices g)"

definition num_edges :: "metaprogram \<Rightarrow> nat" where
  "num_edges g = length (mp_edges g)"

definition get_state :: "metaprogram \<Rightarrow> state_t" where
  "get_state g = mp_state g"

definition get_mode :: "metaprogram \<Rightarrow> mode_t" where
  "get_mode g = mp_mode g"

definition get_root_vertex :: "metaprogram \<Rightarrow> vertex_descriptor" where
  "get_root_vertex g = mp_root_vertex g"

definition get_current_edge :: "metaprogram \<Rightarrow> optional_edge_descriptor" where
  "get_current_edge g = mp_current_edge g"

definition get_source :: "metaprogram \<Rightarrow> edge_descriptor \<Rightarrow> vertex_descriptor" where
  "get_source g e = ep_source (mp_edges g ! e)"

definition get_target :: "metaprogram \<Rightarrow> edge_descriptor \<Rightarrow> vertex_descriptor" where
  "get_target g e = ep_target (mp_edges g ! e)"

text \<open>Modelled from the spec: \<^verbatim>\<open>to_frame(e)\<close> is the frame attached to the callee
  of \<open>e\<close>; \<^verbatim>\<open>get_root_frame()\<close> is the frame of the root vertex.\<close>

definition to_frame :: "metaprogram \<Rightarrow> edge_descriptor \<Rightarrow> frame" where
  "to_frame g e =
     \<lparr>frame_node = vp_node (mp_vertices g ! get_target g e),
      frame_source_location = vp_source_location (mp_vertices g ! get_target g e),
      frame_point_of_event = Some (ep_point_of_event (mp_edges g ! e)),
      frame_kind = Some (ep_kind (mp_edges g ! e))\<rparr>"

definition get_root_frame :: "metaprogram \<Rightarrow> frame" where
  "get_root_frame g =
     \<lparr>frame_node = vp_node (mp_vertices g ! get_root_vertex g),
      frame_source_location = vp_source_location (mp_vertices g ! get_root_vertex g),
      frame_point_of_event = None,
      frame_kind = None\<rparr>"

text \<open>Modelled from the spec: the filtered out-edges of a vertex are the edges leaving
  it, in discovery order, without the disabled ones; the enabled out-degree counts
  them.\<close>

definition get_filtered_out_edges ::
  "metaprogram \<Rightarrow> vertex_descriptor \<Rightarrow> edge_descriptor list" where
  "get_filtered_out_edges g v =
     filter (\<lambda>e. get_source g e = v \<and> ep_enabled (mp_edges g ! e)) [0..<num_edges g]"

definition get_enabled_out_degree :: "metaprogram \<Rightarrow> vertex_descriptor \<Rightarrow> nat" where
  "get_enabled_out_degree g v = length (get_filtered_out_edges g v)"

text \<open>
  A metaprogram is well formed when every descriptor it holds names an entry of its
  arenas and the discovered set has one mark per vertex. The graph library behind the
  metaprogram guarantees this by construction; the arena model states it.
\<close>

definition valid_edge :: "metaprogram \<Rightarrow> edge_descriptor \<Rightarrow> bool" where
  "valid_edge g e = (e < num_edges g)"

definition wf_metaprogram :: "metaprogram \<Rightarrow> bool" where
  "wf_metaprogram g =
     (mp_root_vertex g < num_vertices g \<and>
      length (discovered (mp_state g)) = num_vertices g \<and>
      list_all (\<lambda>ep. ep_source ep < num_vertices g \<and> ep_target ep < num_vertices g)
        (mp_edges g) \<and>
      (case mp_current_edge g of None \<Rightarrow> True | Some e \<Rightarrow> valid_edge g e))"

section \<open>The forward trace iterator\<close>

text \<open>
  The members of \<^verbatim>\<open>forward_trace_iterator\<close>. The member \<^verbatim>\<open>_mp\<close> is a pointer
  to the metaprogram; \<open>None\<close> is the pointer of a default-constructed iterator, which
  points to no metaprogram. The pending stack \<^verbatim>\<open>_to_visit\<close> is a list whose head is
  the top of the stack. Depths are C++ \<^verbatim>\<open>int\<close>s and are modelled as unbounded
  integers: a depth grows by one for each edge of a path, and C++ leaves the overflow of a
  signed integer undefined.
\<close>

record forward_trace_iterator =
  it_finished :: bool
  it_max_depth :: "int option"
  it_mp :: "metaprogram option"
  it_discovered :: "bool list"
  it_to_visit :: "(optional_edge_descriptor \<times> int) list"
  it_current :: call_graph_node

text \<open>Modelled from the spec: the default constructor of \<^verbatim>\<open>data::call_graph_node\<close>
  is not among the sources; the value below stands for the node a default-constructed
  iterator holds, which no traversal ever yields.\<close>

definition call_graph_node_default :: call_graph_node where
  "call_graph_node_default =
     \<lparr>cgn_frame = \<lparr>frame_node = cpp_code_node [],
                   frame_source_location = file_location [] 0 0,
                   frame_point_of_event = None, frame_kind = None\<rparr>,
      cgn_depth = 0, cgn_number_of_children = 0\<rparr>"

definition forward_trace_iterator_default :: forward_trace_iterator where
  "forward_trace_iterator_default =
     \<lparr>it_finished = True, it_max_depth = None, it_mp = None, it_discovered = [],
      it_to_visit = [], it_current = call_graph_node_default\<rparr>"

text \<open>\<^verbatim>\<open>_max_depth && *_max_depth <= depth_\<close>\<close>

definition ceiling_reached :: "int option \<Rightarrow> int \<Rightarrow> bool" where
  "ceiling_reached max_depth depth = (case max_depth of None \<Rightarrow> False | Some d \<Rightarrow> d \<le> depth)"

text \<open>\<^verbatim>\<open>!_max_depth || *_max_depth > depth_\<close>\<close>

definition below_ceiling :: "int option \<Rightarrow> int \<Rightarrow> bool" where
  "below_ceiling max_depth depth = (case max_depth of None \<Rightarrow> True | Some d \<Rightarrow> d > depth)"

text \<open>
  \<^verbatim>\<open>visit(edge_, depth_)\<close>, with the metaprogram \<open>g\<close> that \<^verbatim>\<open>_mp\<close> points to
  passed explicitly. The loop over the filtered out-edges pushes them one by one.
\<close>

definition visit ::
  "metaprogram \<Rightarrow> forward_trace_iterator \<Rightarrow> optional_edge_descriptor \<Rightarrow> int \<Rightarrow>
   forward_trace_iterator" where
  "visit g it edge depth =
     (let vertex = (case edge of Some e \<Rightarrow> get_target g e | None \<Rightarrow> get_root_vertex g);
          it1 = it\<lparr>it_current :=
                   \<lparr>cgn_frame = (case edge of Some e \<Rightarrow> to_frame g e | None \<Rightarrow> get_root_frame g),
                    cgn_depth = depth,
                    cgn_number_of_children =
                      (if it_discovered it ! vertex \<or> ceiling_reached (it_max_depth it) depth
                       then 0 else get_enabled_out_degree g vertex)\<rparr>\<rparr>
      in if \<not> it_discovered it1 ! vertex then
           (let it2 = (if get_mode g \<noteq> full
                       then it1\<lparr>it_discovered := (it_discovered it1)[vertex := True]\<rparr>
                       else it1)
            in if below_ceiling (it_max_depth it2) depth then
                 it2\<lparr>it_to_visit :=
                       fold (\<lambda>out_edge stack. (Some out_edge, depth + 1) # stack)
                         (get_filtered_out_edges g vertex) (it_to_visit it2)\<rparr>
               else it2)
         else it1)"

text \<open>The constructor taking a metaprogram and an optional maximum depth.\<close>

definition forward_trace_iterator_init ::
  "metaprogram \<Rightarrow> int option \<Rightarrow> forward_trace_iterator" where
  "forward_trace_iterator_init mp max_depth =
     visit mp
       \<lparr>it_finished = False, it_max_depth = max_depth, it_mp = Some mp,
        it_discovered = discovered (get_state mp), it_to_visit = [],
        it_current = call_graph_node_default\<rparr>
       (get_current_edge mp) 0"

text \<open>
  \<^verbatim>\<open>operator++\<close>. With pending work it dereferences \<^verbatim>\<open>_mp\<close>; the result is
  \<open>None\<close> when there is no metaprogram to dereference.
\<close>

definition increment :: "forward_trace_iterator \<Rightarrow> forward_trace_iterator option" where
  "increment it =
     (case it_to_visit it of
        [] \<Rightarrow> Some (it\<lparr>it_finished := True\<rparr>)
      | (edge, depth) # rest \<Rightarrow>
          (case it_mp it of
             None \<Rightarrow> None
           | Some g \<Rightarrow> Some (visit g (it\<lparr>it_to_visit := rest\<rparr>) edge depth)))"

text \<open>\<^verbatim>\<open>operator*\<close> and \<^verbatim>\<open>operator==\<close>.\<close>

definition deref :: "forward_trace_iterator \<Rightarrow> call_graph_node" where
  "deref it = it_current it"

definition iterator_eq :: "forward_trace_iterator \<Rightarrow> forward_trace_iterator \<Rightarrow> bool" where
  "iterator_eq it i = (it_finished it = it_finished i)"

text \<open>\<open>advance n\<close> applies \<^verbatim>\<open>operator++\<close> \<open>n\<close> times.\<close>

fun advance :: "nat \<Rightarrow> forward_trace_iterator \<Rightarrow> forward_trace_iterator option" where
  "advance 0 it = Some it"
| "advance (Suc n) it = (case increment it of None \<Rightarrow> None | Some it' \<Rightarrow> advance n it')"

text \<open>
  The consumer of an iterator range: starting at an iterator, it yields the current node
  and increments until the iterator compares equal to the end iterator. The fuel bounds the
  number of nodes taken, so the result is the list of the first nodes of the range (all
  of them once the fuel exceeds their number).
\<close>

fun range_nodes ::
  "nat \<Rightarrow> forward_trace_iterator \<Rightarrow> forward_trace_iterator \<Rightarrow> call_graph_node list option" where
  "range_nodes 0 i end_it = Some []"
| "range_nodes (Suc n) i end_it =
     (if iterator_eq i end_it then Some []
      else case increment i of
             None \<Rightarrow> None
           | Some nxt \<Rightarrow> map_option (\<lambda>ns. deref i # ns) (range_nodes n nxt end_it))"

section \<open>The metaprogram builder\<close>

text \<open>
  The sources declare the builder's handlers, its edge stack and its map from element
  keys to vertices (\<^verbatim>\<open>metaprogram_builder.hpp\<close>); the bodies of the handlers are not
  among the sources and are modelled from the specification.
\<close>

type_synonym element_key_t = "metaprogram_node \<times> file_location"

record metaprogram_builder =
  mb_mp :: metaprogram
  edge_stack :: "edge_descriptor list"
  element_vertex_map :: "element_key_t \<rightharpoonup> vertex_descriptor"

datatype fault =
    end_without_begin
  | evaluation_end_inside_begin

text \<open>The events, one for each handler the header declares, with its arguments.\<close>

datatype event =
    ev_template_begin event_kind string file_location file_location real
  | ev_template_end real
  | ev_macro_expansion_begin string "string list option" file_location file_location real
  | ev_rescanning string real
  | ev_expanded_code string file_location real
  | ev_macro_expansion_end real
  | ev_token_generation string file_location file_location real
  | ev_token_skipping string file_location real
  | ev_include_begin string file_location real
  | ev_include_end real
  | ev_define string "string list option" string file_location real
  | ev_undefine string file_location real
  | ev_preprocessing_condition_begin string file_location real
  | ev_preprocessing_condition_end bool real
  | ev_preprocessing_else file_location real
  | ev_preprocessing_endif file_location real
  | ev_error_directive string file_location real
  | ev_line_directive string file_location file_location real
  | ev_evaluation_end type_or_code_or_error

text \<open>Modelled from the spec: the metaprogram's operations that append to its arenas
  are not among the sources. A new vertex gets the next index and an unset discovered
  mark; a new edge gets the next index.\<close>

definition mp_add_vertex ::
  "metaprogram \<Rightarrow> metaprogram_node \<Rightarrow> file_location \<Rightarrow> metaprogram \<times> vertex_descriptor" where
  "mp_add_vertex g node source_location =
     (g\<lparr>mp_vertices := mp_vertices g @
           [\<lparr>vp_node = node, vp_source_location = source_location,
             vp_condition_result = None\<rparr>],
        mp_state := \<lparr>discovered = discovered (mp_state g) @ [False]\<rparr>\<rparr>,
      num_vertices g)"

definition mp_add_edge ::
  "metaprogram \<Rightarrow> vertex_descriptor \<Rightarrow> vertex_descriptor \<Rightarrow> event_kind \<Rightarrow> file_location \<Rightarrow>
   real \<Rightarrow> bool \<Rightarrow> metaprogram \<times> edge_descriptor" where
  "mp_add_edge g from to kind point_of_event timestamp enabled =
     (g\<lparr>mp_edges := mp_edges g @
           [\<lparr>ep_source = from, ep_target = to, ep_kind = kind,
             ep_point_of_event = point_of_event, ep_begin_timestamp = timestamp,
             ep_enabled = enabled\<rparr>]\<rparr>,
      num_edges g)"

text \<open>Modelled from the spec: the constructor creates the metaprogram with its
  synthetic root vertex, an empty edge stack and an empty map.\<close>

definition metaprogram_builder_init ::
  "mode_t \<Rightarrow> string \<Rightarrow> file_location \<Rightarrow> metaprogram_builder" where
  "metaprogram_builder_init mode root_name root_source_location =
     \<lparr>mb_mp =
        \<lparr>mp_mode = mode,
         mp_vertices = [\<lparr>vp_node = cpp_code_node root_name,
                         vp_source_location = root_source_location,
                         vp_condition_result = None\<rparr>],
         mp_edges = [],
         mp_root_vertex = 0,
         mp_state = \<lparr>discovered = [False]\<rparr>,
         mp_current_edge = None,
         mp_evaluation_result = None\<rparr>,
      edge_stack = [],
      element_vertex_map = Map.empty\<rparr>"

definition get_metaprogram :: "metaprogram_builder \<Rightarrow> metaprogram" where
  "get_metaprogram b = mb_mp b"

text \<open>Modelled from the spec: \<^verbatim>\<open>add_vertex(node, source_location)\<close> is declared in
  the header and its body is not among the sources. A vertex with the key
  \<open>(node, source_location)\<close> is reused when the map has one; otherwise a new vertex is
  created and entered into the map.\<close>

definition add_vertex ::
  "metaprogram_builder \<Rightarrow> metaprogram_node \<Rightarrow> file_location \<Rightarrow>
   metaprogram_builder \<times> vertex_descriptor" where
  "add_vertex b node source_location =
     (case element_vertex_map b (node, source_location) of
        Some v \<Rightarrow> (b, v)
      | None \<Rightarrow>
          (let (g, v) = mp_add_vertex (mb_mp b) node source_location
           in (b\<lparr>mb_mp := g,
                 element_vertex_map := (element_vertex_map b)((node, source_location) \<mapsto> v)\<rparr>,
               v)))"

text \<open>Modelled from the spec: the events that are not template steps get a fresh
  vertex every time.\<close>

definition add_fresh_vertex ::
  "metaprogram_builder \<Rightarrow> metaprogram_node \<Rightarrow> file_location \<Rightarrow>
   metaprogram_builder \<times> vertex_descriptor" where
  "add_fresh_vertex b node source_location =
     (let (g, v) = mp_add_vertex (mb_mp b) node source_location
      in (b\<lparr>mb_mp := g\<rparr>, v))"

text \<open>Modelled from the spec: a new edge starts at the target of the edge on top of
  the stack, or at the root when the stack is empty.\<close>

definition top_vertex :: "metaprogram_builder \<Rightarrow> vertex_descriptor" where
  "top_vertex b =
     (case edge_stack b of
        [] \<Rightarrow> get_root_vertex (mb_mp b)
      | e # _ \<Rightarrow> get_target (mb_mp b) e)"

definition add_edge_from_top ::
  "metaprogram_builder \<Rightarrow> vertex_descriptor \<Rightarrow> event_kind \<Rightarrow> file_location \<Rightarrow> real \<Rightarrow> bool \<Rightarrow>
   metaprogram_builder \<times> edge_descriptor" where
  "add_edge_from_top b v kind point_of_event timestamp enabled =
     (let (g, e) = mp_add_edge (mb_mp b) (top_vertex b) v kind point_of_event timestamp enabled
      in (b\<lparr>mb_mp := g\<rparr>, e))"

text \<open>Modelled from the spec: a begin event records its edge and pushes it; a leaf
  event records its edge and leaves the stack as it was; an end event pops the open
  edge and is a structural fault when there is none.\<close>

definition open_edge ::
  "metaprogram_builder \<Rightarrow> vertex_descriptor \<Rightarrow> event_kind \<Rightarrow> file_location \<Rightarrow> real \<Rightarrow> bool \<Rightarrow>
   metaprogram_builder" where
  "open_edge b v kind point_of_event timestamp enabled =
     (let (b1, e) = add_edge_from_top b v kind point_of_event timestamp enabled
      in b1\<lparr>edge_stack := e # edge_stack b1\<rparr>)"

definition leaf_edge ::
  "metaprogram_builder \<Rightarrow> vertex_descriptor \<Rightarrow> event_kind \<Rightarrow> file_location \<Rightarrow> real \<Rightarrow> bool \<Rightarrow>
   metaprogram_builder" where
  "leaf_edge b v kind point_of_event timestamp enabled =
     fst (add_edge_from_top b v kind point_of_event timestamp enabled)"

definition close_edge :: "metaprogram_builder \<Rightarrow> fault + metaprogram_builder" where
  "close_edge b =
     (case edge_stack b of
        [] \<Rightarrow> Inl end_without_begin
      | e # rest \<Rightarrow> Inr (b\<lparr>edge_stack := rest\<rparr>))"

text \<open>Modelled from the spec: the events that are not template steps are shown in
  the full trace only; their edges are enabled in \<open>full\<close> mode.\<close>

definition detail_enabled :: "metaprogram_builder \<Rightarrow> bool" where
  "detail_enabled b = (get_mode (mb_mp b) = full)"

definition begin_detail ::
  "metaprogram_builder \<Rightarrow> metaprogram_node \<Rightarrow> event_kind \<Rightarrow> file_location \<Rightarrow> file_location \<Rightarrow>
   real \<Rightarrow> metaprogram_builder" where
  "begin_detail b node kind point_of_event source_location timestamp =
     (let (b1, v) = add_fresh_vertex b node source_location
      in open_edge b1 v kind point_of_event timestamp (detail_enabled b))"

definition leaf_detail ::
  "metaprogram_builder \<Rightarrow> metaprogram_node \<Rightarrow> event_kind \<Rightarrow> file_location \<Rightarrow> file_location \<Rightarrow>
   real \<Rightarrow> metaprogram_builder" where
  "leaf_detail b node kind point_of_event source_location timestamp =
     (let (b1, v) = add_fresh_vertex b node source_location
      in leaf_edge b1 v kind point_of_event timestamp (detail_enabled b))"

definition no_location :: file_location where
  "no_location = file_location [] 0 0"

fun macro_call :: "string \<Rightarrow> string list option \<Rightarrow> string" where
  "macro_call name None = name"
| "macro_call name (Some args) = name @ ''('' @ concat (map (\<lambda>a. a @ '','') args) @ '')''"

text \<open>Modelled from the spec: the handlers, named as the header declares them.\<close>

definition handle_template_begin ::
  "event_kind \<Rightarrow> string \<Rightarrow> file_location \<Rightarrow> file_location \<Rightarrow> real \<Rightarrow> metaprogram_builder \<Rightarrow>
   metaprogram_builder" where
  "handle_template_begin kind type point_of_event source_location timestamp b =
     (let (b1, v) = add_vertex b (type_node type) source_location
      in open_edge b1 v kind point_of_event timestamp True)"

definition handle_template_end :: "real \<Rightarrow> metaprogram_builder \<Rightarrow> fault + metaprogram_builder" where
  "handle_template_end timestamp b = close_edge b"

definition handle_macro_expansion_begin ::
  "string \<Rightarrow> string list option \<Rightarrow> file_location \<Rightarrow> file_location \<Rightarrow> real \<Rightarrow>
   metaprogram_builder \<Rightarrow> metaprogram_builder" where
  "handle_macro_expansion_begin name args point_of_event source_location timestamp b =
     begin_detail b (cpp_code_node (macro_call name args)) macro_expansion point_of_event
       source_location timestamp"

definition handle_rescanning :: "string \<Rightarrow> real \<Rightarrow> metaprogram_builder \<Rightarrow> metaprogram_builder" where
  "handle_rescanning code timestamp b =
     leaf_detail b (cpp_code_node code) rescanning no_location no_location timestamp"

definition handle_expanded_code ::
  "string \<Rightarrow> file_location \<Rightarrow> real \<Rightarrow> metaprogram_builder \<Rightarrow> metaprogram_builder" where
  "handle_expanded_code code point_of_event timestamp b =
     leaf_detail b (cpp_code_node code) expanded_code point_of_event point_of_event timestamp"

definition handle_macro_expansion_end ::
  "real \<Rightarrow> metaprogram_builder \<Rightarrow> fault + metaprogram_builder" where
  "handle_macro_expansion_end timestamp b = close_edge b"

definition handle_token_generation ::
  "string \<Rightarrow> file_location \<Rightarrow> file_location \<Rightarrow> real \<Rightarrow> metaprogram_builder \<Rightarrow>
   metaprogram_builder" where
  "handle_token_generation token point_of_event source_location timestamp b =
     leaf_detail b (token_node token) generated_token point_of_event source_location timestamp"

definition handle_token_skipping ::
  "string \<Rightarrow> file_location \<Rightarrow> real \<Rightarrow> metaprogram_builder \<Rightarrow> metaprogram_builder" where
  "handle_token_skipping token point_of_event timestamp b =
     leaf_detail b (token_node token) skipped_token point_of_event point_of_event timestamp"

definition handle_include_begin ::
  "string \<Rightarrow> file_location \<Rightarrow> real \<Rightarrow> metaprogram_builder \<Rightarrow> metaprogram_builder" where
  "handle_include_begin arg point_of_event timestamp b =
     begin_detail b (cpp_code_node arg) include_file point_of_event point_of_event timestamp"

definition handle_include_end :: "real \<Rightarrow> metaprogram_builder \<Rightarrow> fault + metaprogram_builder" where
  "handle_include_end timestamp b = close_edge b"

definition handle_define ::
  "string \<Rightarrow> string list option \<Rightarrow> string \<Rightarrow> file_location \<Rightarrow> real \<Rightarrow> metaprogram_builder \<Rightarrow>
   metaprogram_builder" where
  "handle_define name args body point_of_event timestamp b =
     leaf_detail b (cpp_code_node (macro_call name args @ '' '' @ body)) macro_definition
       point_of_event point_of_event timestamp"

definition handle_undefine ::
  "string \<Rightarrow> file_location \<Rightarrow> real \<Rightarrow> metaprogram_builder \<Rightarrow> metaprogram_builder" where
  "handle_undefine name point_of_event timestamp b =
     leaf_detail b (cpp_code_node name) macro_deletion point_of_event point_of_event timestamp"

definition handle_preprocessing_condition_begin ::
  "string \<Rightarrow> file_location \<Rightarrow> real \<Rightarrow> metaprogram_builder \<Rightarrow> metaprogram_builder" where
  "handle_preprocessing_condition_begin expression point_of_event timestamp b =
     begin_detail b (cpp_code_node expression) preprocessing_condition point_of_event
       point_of_event timestamp"

text \<open>Modelled from the spec: the end of a preprocessing condition stores the branch
  outcome on the frame of the edge it closes.\<close>

definition handle_preprocessing_condition_end ::
  "bool \<Rightarrow> real \<Rightarrow> metaprogram_builder \<Rightarrow> fault + metaprogram_builder" where
  "handle_preprocessing_condition_end result timestamp b =
     (case edge_stack b of
        [] \<Rightarrow> Inl end_without_begin
      | e # rest \<Rightarrow>
          (let g = mb_mp b; v = get_target g e
           in Inr (b\<lparr>mb_mp :=
                       g\<lparr>mp_vertices :=
                            (mp_vertices g)[v := (mp_vertices g ! v)
                               \<lparr>vp_condition_result := Some result\<rparr>]\<rparr>,
                     edge_stack := rest\<rparr>)))"

definition handle_preprocessing_else ::
  "file_location \<Rightarrow> real \<Rightarrow> metaprogram_builder \<Rightarrow> metaprogram_builder" where
  "handle_preprocessing_else point_of_event timestamp b =
     leaf_detail b (cpp_code_node ''#else'') preprocessing_else point_of_event point_of_event
       timestamp"

definition handle_preprocessing_endif ::
  "file_location \<Rightarrow> real \<Rightarrow> metaprogram_builder \<Rightarrow> metaprogram_builder" where
  "handle_preprocessing_endif point_of_event timestamp b =
     leaf_detail b (cpp_code_node ''#endif'') preprocessing_endif point_of_event point_of_event
       timestamp"

definition handle_error_directive ::
  "string \<Rightarrow> file_location \<Rightarrow> real \<Rightarrow> metaprogram_builder \<Rightarrow> metaprogram_builder" where
  "handle_error_directive message point_of_event timestamp b =
     leaf_detail b (cpp_code_node message) error_directive point_of_event point_of_event
       timestamp"

definition handle_line_directive ::
  "string \<Rightarrow> file_location \<Rightarrow> file_location \<Rightarrow> real \<Rightarrow> metaprogram_builder \<Rightarrow>
   metaprogram_builder" where
  "handle_line_directive arg point_of_event source_location timestamp b =
     leaf_detail b (cpp_code_node arg) line_directive point_of_event source_location timestamp"

text \<open>Modelled from the spec: the end of the evaluation stores the final result, and
  is a structural fault while an edge is still open.\<close>

definition handle_evaluation_end ::
  "type_or_code_or_error \<Rightarrow> metaprogram_builder \<Rightarrow> fault + metaprogram_builder" where
  "handle_evaluation_end result b =
     (if edge_stack b \<noteq> [] then Inl evaluation_end_inside_begin
      else Inr (b\<lparr>mb_mp := (mb_mp b)\<lparr>mp_evaluation_result := Some result\<rparr>\<rparr>))"

text \<open>One event is given to its handler; a fault leaves no builder behind.\<close>

fun handle_event :: "event \<Rightarrow> metaprogram_builder \<Rightarrow> fault + metaprogram_builder" where
  "handle_event (ev_template_begin k t p s ts) b = Inr (handle_template_begin k t p s ts b)"
| "handle_event (ev_template_end ts) b = handle_template_end ts b"
| "handle_event (ev_macro_expansion_begin n a p s ts) b =
     Inr (handle_macro_expansion_begin n a p s ts b)"
| "handle_event (ev_rescanning c ts) b = Inr (handle_rescanning c ts b)"
| "handle_event (ev_expanded_code c p ts) b = Inr (handle_expanded_code c p ts b)"
| "handle_event (ev_macro_expansion_end ts) b = handle_macro_expansion_end ts b"
| "handle_event (ev_token_generation t p s ts) b = Inr (handle_token_generation t p s ts b)"
| "handle_event (ev_token_skipping t p ts) b = Inr (handle_token_skipping t p ts b)"
| "handle_event (ev_include_begin a p ts) b = Inr (handle_include_begin a p ts b)"
| "handle_event (ev_include_end ts) b = handle_include_end ts b"
| "handle_event (ev_define n a bd p ts) b = Inr (handle_define n a bd p ts b)"
| "handle_event (ev_undefine n p ts) b = Inr (handle_undefine n p ts b)"
| "handle_event (ev_preprocessing_condition_begin e p ts) b =
     Inr (handle_preprocessing_condition_begin e p ts b)"
| "handle_event (ev_preprocessing_condition_end r ts) b =
     handle_preprocessing_condition_end r ts b"
| "handle_event (ev_preprocessing_else p ts) b = Inr (handle_preprocessing_else p ts b)"
| "handle_event (ev_preprocessing_endif p ts) b = Inr (handle_preprocessing_endif p ts b)"
| "handle_event (ev_error_directive m p ts) b = Inr (handle_error_directive m p ts b)"
| "handle_event (ev_line_directive a p s ts) b = Inr (handle_line_directive a p s ts b)"
| "handle_event (ev_evaluation_end r) b = handle_evaluation_end r b"

fun run_events :: "event list \<Rightarrow> metaprogram_builder \<Rightarrow> fault + metaprogram_builder" where
  "run_events [] b = Inr b"
| "run_events (ev # evs) b =
     (case handle_event ev b of Inl f \<Rightarrow> Inl f | Inr b' \<Rightarrow> run_events evs b')"

section \<open>Notions used to state the properties\<close>

subsection \<open>Traversals\<close>

text \<open>The vertex that \<^verbatim>\<open>visit\<close> resolves for an optional edge.\<close>

definition target_vertex :: "metaprogram \<Rightarrow> optional_edge_descriptor \<Rightarrow> vertex_descriptor" where
  "target_vertex g edge = (case edge of Some e \<Rightarrow> get_target g e | None \<Rightarrow> get_root_vertex g)"

text \<open>\<^verbatim>\<open>operator++\<close> on an iterator whose \<^verbatim>\<open>_mp\<close> points to \<open>g\<close>.\<close>

definition step :: "metaprogram \<Rightarrow> forward_trace_iterator \<Rightarrow> forward_trace_iterator" where
  "step g it =
     (case it_to_visit it of
        [] \<Rightarrow> it\<lparr>it_finished := True\<rparr>
      | (edge, depth) # rest \<Rightarrow> visit g (it\<lparr>it_to_visit := rest\<rparr>) edge depth)"

text \<open>
  The vertex visited for the \<open>k\<close>-th node of the traversal of \<open>g\<close>: the constructor
  visits the target of the current edge, and each later node comes from the entry on top
  of the pending stack.
\<close>

fun visited_vertex :: "metaprogram \<Rightarrow> int option \<Rightarrow> nat \<Rightarrow> vertex_descriptor option" where
  "visited_vertex g max_depth 0 = Some (target_vertex g (get_current_edge g))"
| "visited_vertex g max_depth (Suc k) =
     (case advance k (forward_trace_iterator_init g max_depth) of
        None \<Rightarrow> None
      | Some it \<Rightarrow>
          (case it_to_visit it of
             [] \<Rightarrow> None
           | (edge, depth) # rest \<Rightarrow> Some (target_vertex g edge)))"

text \<open>
  A path from \<open>v\<close> is a list of edges, each a filtered out-edge of the vertex the
  previous one leads to. The empty list is the path from \<open>v\<close> to itself.
\<close>

fun is_path :: "metaprogram \<Rightarrow> vertex_descriptor \<Rightarrow> edge_descriptor list \<Rightarrow> bool" where
  "is_path g v [] = True"
| "is_path g v (e # es) = (e \<in> set (get_filtered_out_edges g v) \<and> is_path g (get_target g e) es)"

definition paths_from :: "metaprogram \<Rightarrow> vertex_descriptor \<Rightarrow> edge_descriptor list set" where
  "paths_from g v = {es. is_path g v es}"

definition edge_rel :: "metaprogram \<Rightarrow> (vertex_descriptor \<times> vertex_descriptor) set" where
  "edge_rel g = (\<lambda>ep. (ep_source ep, ep_target ep)) ` set (mp_edges g)"

definition none_discovered :: "metaprogram \<Rightarrow> bool" where
  "none_discovered g = list_all Not (discovered (get_state g))"

text \<open>The weight of a pending entry under a depth ceiling: an entry \<open>n\<close> levels
  above the ceiling stands for itself and for at most \<open>b\<close> entries one level deeper.\<close>

fun weight :: "nat \<Rightarrow> nat \<Rightarrow> nat" where
  "weight b 0 = 1"
| "weight b (Suc n) = 1 + b * weight b n"

definition ceiling_measure :: "metaprogram \<Rightarrow> int \<Rightarrow> forward_trace_iterator \<Rightarrow> nat" where
  "ceiling_measure g d it =
     sum_list (map (\<lambda>(edge, depth). weight (num_edges g) (nat (d - depth))) (it_to_visit it))"

definition undiscovered :: "bool list \<Rightarrow> nat" where
  "undiscovered ds = length (filter Not ds)"

definition minimized_measure :: "metaprogram \<Rightarrow> forward_trace_iterator \<Rightarrow> nat" where
  "minimized_measure g it =
     undiscovered (it_discovered it) * Suc (num_edges g) + length (it_to_visit it)"

text \<open>
  The state of a traversal under the depth ceiling \<open>d\<close>: no pending entry is deeper
  than \<open>d\<close>, the current node is no deeper than \<open>d\<close> (or is the start node), and it
  reports no children when it is at the ceiling or beyond.
\<close>

definition under_ceiling :: "int \<Rightarrow> forward_trace_iterator \<Rightarrow> bool" where
  "under_ceiling d it =
     (it_max_depth it = Some d \<and>
      list_all (\<lambda>(edge, depth). depth \<le> d) (it_to_visit it) \<and>
      cgn_depth (it_current it) \<le> max d 0 \<and>
      (d \<le> cgn_depth (it_current it) \<longrightarrow> cgn_number_of_children (it_current it) = 0))"

text \<open>
  The state of a traversal of a well-formed metaprogram: the snapshot has one mark per
  vertex, every pending edge is an edge of the metaprogram, and a finished iterator has
  no pending entry.
\<close>

definition entry_ok :: "metaprogram \<Rightarrow> optional_edge_descriptor \<times> int \<Rightarrow> bool" where
  "entry_ok g x = (case fst x of None \<Rightarrow> True | Some e \<Rightarrow> valid_edge g e)"

definition it_ok :: "metaprogram \<Rightarrow> forward_trace_iterator \<Rightarrow> bool" where
  "it_ok g it =
     (length (it_discovered it) = num_vertices g \<and>
      list_all (entry_ok g) (it_to_visit it) \<and>
      (it_finished it \<longrightarrow> it_to_visit it = []))"

text \<open>
  The entries that \<^verbatim>\<open>visit\<close> pushes for the children of \<open>v\<close> when it expands
  \<open>v\<close> at depth \<open>d\<close>, in the order in which the filtered out-edges are enumerated, and
  the nodes that the next \<open>m\<close> increments of an iterator produce.
\<close>

definition pushed_children ::
  "metaprogram \<Rightarrow> vertex_descriptor \<Rightarrow> int \<Rightarrow> (optional_edge_descriptor \<times> int) list" where
  "pushed_children g v d = map (\<lambda>out_edge. (Some out_edge, d + 1)) (get_filtered_out_edges g v)"

definition nodes_after ::
  "metaprogram \<Rightarrow> nat \<Rightarrow> forward_trace_iterator \<Rightarrow> call_graph_node list" where
  "nodes_after g m it = map (\<lambda>k. deref ((step g ^^ k) it)) [1..<Suc m]"

text \<open>
  Notions for the traversal in \<open>full\<close> mode without a ceiling: an iterator on which
  no vertex is marked; the number of paths from the vertex of a pending entry; and an
  iterator that, after \<open>n\<close> increments none of which finishes it, is left with the
  pending entries \<open>below\<close>.
\<close>

definition fresh :: "metaprogram \<Rightarrow> forward_trace_iterator \<Rightarrow> bool" where
  "fresh g it =
     (it_max_depth it = None \<and> \<not> it_finished it \<and>
      length (it_discovered it) = num_vertices g \<and> list_all Not (it_discovered it))"

definition path_count :: "metaprogram \<Rightarrow> optional_edge_descriptor \<times> int \<Rightarrow> nat" where
  "path_count g x = card (paths_from g (target_vertex g (fst x)))"

definition runs_off ::
  "metaprogram \<Rightarrow> forward_trace_iterator \<Rightarrow> nat \<Rightarrow> (optional_edge_descriptor \<times> int) list \<Rightarrow>
   bool" where
  "runs_off g it n below =
     (fresh g ((step g ^^ n) it) \<and> it_to_visit ((step g ^^ n) it) = below \<and>
      (\<forall>k\<le>n. \<not> it_finished ((step g ^^ k) it)))"

subsection \<open>Event sequences\<close>

datatype bracket = template_step | macro_expansion_step | include_step | condition_step

fun opens :: "event \<Rightarrow> bracket option" where
  "opens (ev_template_begin k t p s ts) = Some template_step"
| "opens (ev_macro_expansion_begin n a p s ts) = Some macro_expansion_step"
| "opens (ev_include_begin a p ts) = Some include_step"
| "opens (ev_preprocessing_condition_begin e p ts) = Some condition_step"
| "opens _ = None"

fun ends :: "event \<Rightarrow> bracket option" where
  "ends (ev_template_end ts) = Some template_step"
| "ends (ev_macro_expansion_end ts) = Some macro_expansion_step"
| "ends (ev_include_end ts) = Some include_step"
| "ends (ev_preprocessing_condition_end r ts) = Some condition_step"
| "ends _ = None"

definition is_begin :: "event \<Rightarrow> bool" where
  "is_begin ev = (opens ev \<noteq> None)"

definition is_end :: "event \<Rightarrow> bool" where
  "is_end ev = (ends ev \<noteq> None)"

definition closes :: "event \<Rightarrow> event \<Rightarrow> bool" where
  "closes ev bg = (is_end ev \<and> ends ev = opens bg)"

fun is_evaluation_end :: "event \<Rightarrow> bool" where
  "is_evaluation_end (ev_evaluation_end r) = True"
| "is_evaluation_end _ = False"

text \<open>
  A sequence of events is balanced when every end event closes the most recent begin
  event that is still open and is of its kind, no begin event is left open, and the end of
  the evaluation comes last, after every begin event has been closed. The first argument
  holds the begin events that are open.
\<close>

fun balanced_from :: "event list \<Rightarrow> event list \<Rightarrow> bool" where
  "balanced_from opened [] = (opened = [])"
| "balanced_from opened (ev # evs) =
     (if is_begin ev then balanced_from (ev # opened) evs
      else if is_end ev then
        (case opened of
           [] \<Rightarrow> False
         | bg # rest \<Rightarrow> closes ev bg \<and> balanced_from rest evs)
      else if is_evaluation_end ev then opened = [] \<and> evs = []
      else balanced_from opened evs)"

definition balanced :: "event list \<Rightarrow> bool" where
  "balanced evs = balanced_from [] evs"

fun template_key :: "event \<Rightarrow> element_key_t option" where
  "template_key (ev_template_begin k t p s ts) = Some (type_node t, s)"
| "template_key _ = None"

text \<open>
  The begins of template steps in a sequence of events, each with its element key and the
  vertex its edge leads to. The sequence is followed as far as the builder handles it.
\<close>

fun template_begin_targets ::
  "event list \<Rightarrow> metaprogram_builder \<Rightarrow> (element_key_t \<times> vertex_descriptor) list" where
  "template_begin_targets [] b = []"
| "template_begin_targets (ev # evs) b =
     (case handle_event ev b of
        Inl f \<Rightarrow> []
      | Inr b' \<Rightarrow>
          (case template_key ev of
             None \<Rightarrow> []
           | Some key \<Rightarrow> [(key, top_vertex b')]) @ template_begin_targets evs b')"

text \<open>The key a vertex carries.\<close>

definition vertex_key :: "metaprogram \<Rightarrow> vertex_descriptor \<Rightarrow> element_key_t" where
  "vertex_key g v = (vp_node (mp_vertices g ! v), vp_source_location (mp_vertices g ! v))"

text \<open>
  The state of the builder's map: every entry leads to a vertex of the metaprogram that
  carries the entry's key; the vertices of an earlier builder are kept with their keys;
  and the map reaches every vertex other than the root.
\<close>

definition map_ok :: "metaprogram_builder \<Rightarrow> bool" where
  "map_ok b =
     (\<forall>k v. element_vertex_map b k = Some v \<longrightarrow>
        v < num_vertices (mb_mp b) \<and> vertex_key (mb_mp b) v = k)"

definition keeps_vertices :: "metaprogram_builder \<Rightarrow> metaprogram_builder \<Rightarrow> bool" where
  "keeps_vertices b b' =
     (num_vertices (mb_mp b) \<le> num_vertices (mb_mp b') \<and>
      (\<forall>v<num_vertices (mb_mp b). vertex_key (mb_mp b') v = vertex_key (mb_mp b) v))"

text \<open>The events of template steps.\<close>

fun is_template_step :: "event \<Rightarrow> bool" where
  "is_template_step (ev_template_begin k t p s ts) = True"
| "is_template_step (ev_template_end ts) = True"
| "is_template_step _ = False"

definition map_onto :: "metaprogram_builder \<Rightarrow> bool" where
  "map_onto b =
     (ran (element_vertex_map b) = {v. 0 < v \<and> v < num_vertices (mb_mp b)})"

subsection \<open>Example metaprograms\<close>

definition example_vertex :: "string \<Rightarrow> vertex_property" where
  "example_vertex name =
     \<lparr>vp_node = type_node name, vp_source_location = file_location ''a.hpp'' 1 1,
      vp_condition_result = None\<rparr>"

definition example_edge :: "vertex_descriptor \<Rightarrow> vertex_descriptor \<Rightarrow> bool \<Rightarrow> edge_property" where
  "example_edge from to enabled =
     \<lparr>ep_source = from, ep_target = to, ep_kind = template_instantiation,
      ep_point_of_event = file_location ''a.hpp'' 2 1, ep_begin_timestamp = 0,
      ep_enabled = enabled\<rparr>"

text \<open>The graph with root \<open>\<rightarrow>\<close> A \<open>\<rightarrow>\<close> B and root \<open>\<rightarrow>\<close> C \<open>\<rightarrow>\<close> B, where B is reached
  in two ways and has the children D and E; the vertices are root, A, B, D, E, C and the
  edges are in the order of their begin events.\<close>

definition diamond_mp :: "mode_t \<Rightarrow> optional_edge_descriptor \<Rightarrow> metaprogram" where
  "diamond_mp mode cur =
     \<lparr>mp_mode = mode,
      mp_vertices = [example_vertex ''root'', example_vertex ''A'', example_vertex ''B'',
                     example_vertex ''D'', example_vertex ''E'', example_vertex ''C''],
      mp_edges = [example_edge 0 1 True, example_edge 1 2 True, example_edge 2 3 True,
                  example_edge 2 4 True, example_edge 0 5 True, example_edge 5 2 True],
      mp_root_vertex = 0,
      mp_state = \<lparr>discovered = [False, False, False, False, False, False]\<rparr>,
      mp_current_edge = cur,
      mp_evaluation_result = None\<rparr>"

subsection \<open>Example events\<close>

text \<open>The template steps of root \<open>\<rightarrow>\<close> X \<open>\<rightarrow>\<close> Y, root \<open>\<rightarrow>\<close> Z \<open>\<rightarrow>\<close> Y (the
  same Y, memoized) and root \<open>\<rightarrow>\<close> X' (the signature of X at another source location),
  and the same events followed by the end of the evaluation.\<close>

definition example_template_events :: "event list" where
  "example_template_events =
     [ev_template_begin template_instantiation ''X'' (file_location ''m.cpp'' 1 1)
        (file_location ''a.hpp'' 1 1) 1,
      ev_template_begin template_instantiation ''Y'' (file_location ''a.hpp'' 2 1)
        (file_location ''a.hpp'' 5 1) 2,
      ev_template_end 3,
      ev_template_end 4,
      ev_template_begin template_instantiation ''Z'' (file_location ''m.cpp'' 2 1)
        (file_location ''a.hpp'' 9 1) 5,
      ev_template_begin memoization ''Y'' (file_location ''a.hpp'' 10 1)
        (file_location ''a.hpp'' 5 1) 6,
      ev_template_end 7,
      ev_template_end 8,
      ev_template_begin template_instantiation ''X'' (file_location ''m.cpp'' 3 1)
        (file_location ''b.hpp'' 1 1) 9,
      ev_template_end 10]"

definition example_events :: "event list" where
  "example_events = example_template_events @ [ev_evaluation_end (result_type ''int'')]"

definition example_builder :: metaprogram_builder where
  "example_builder = metaprogram_builder_init full ''main'' (file_location ''m.cpp'' 1 1)"

section \<open>Basic facts about the iterator\<close>

lemmas example_simps =
  diamond_mp_def example_vertex_def example_edge_def forward_trace_iterator_init_def
  forward_trace_iterator_default_def call_graph_node_default_def
  visit_def step_def Let_def get_state_def get_mode_def get_root_vertex_def get_current_edge_def
  get_source_def get_target_def to_frame_def get_root_frame_def get_filtered_out_edges_def
  get_enabled_out_degree_def num_edges_def num_vertices_def ceiling_reached_def below_ceiling_def
  iterator_eq_def deref_def eval_nat_numeral upt_rec increment_def target_vertex_def

lemma fold_push:
  "fold (\<lambda>out_edge stack. (Some out_edge, d) # stack) es st =
   rev (map (\<lambda>oe. (Some oe, d)) es) @ st"
  by (induction es arbitrary: st) auto

lemma it_mp_visit [simp]: "it_mp (visit g it e d) = it_mp it"
  by (simp add: visit_def Let_def)

lemma it_finished_visit [simp]: "it_finished (visit g it e d) = it_finished it"
  by (simp add: visit_def Let_def)

lemma it_max_depth_visit [simp]: "it_max_depth (visit g it e d) = it_max_depth it"
  by (simp add: visit_def Let_def)

lemma cgn_frame_visit:
  "cgn_frame (it_current (visit g it e d)) =
   (case e of Some e' \<Rightarrow> to_frame g e' | None \<Rightarrow> get_root_frame g)"
  by (simp add: visit_def Let_def)

lemma cgn_depth_visit [simp]: "cgn_depth (it_current (visit g it e d)) = d"
  by (simp add: visit_def Let_def)

lemma increment_step: "it_mp it = Some g \<Longrightarrow> increment it = Some (step g it)"
  by (simp add: increment_def step_def split: list.splits prod.splits)

lemma it_mp_step [simp]: "it_mp (step g it) = it_mp it"
  by (simp add: step_def split: list.splits prod.splits)

lemma advance_funpow: "it_mp it = Some g \<Longrightarrow> advance n it = Some ((step g ^^ n) it)"
  by (induction n arbitrary: it) (simp_all add: increment_step funpow_swap1)

lemma it_mp_init [simp]: "it_mp (forward_trace_iterator_init g md) = Some g"
  by (simp add: forward_trace_iterator_init_def)

lemma it_finished_init [simp]: "\<not> it_finished (forward_trace_iterator_init g md)"
  by (simp add: forward_trace_iterator_init_def)

text \<open>An iterator that points to a metaprogram can always be incremented, so the
  consumer of a range always gets its nodes.\<close>

lemma range_nodes_total:
  "it_mp it = Some g \<Longrightarrow> \<exists>ns. range_nodes n it end_it = Some ns"
proof (induction n arbitrary: it)
  case 0
  show ?case by simp
next
  case (Suc n)
  from Suc.prems have "it_mp (step g it) = Some g" by simp
  from Suc.IH [OF this] obtain ns where "range_nodes n (step g it) end_it = Some ns" ..
  with Suc.prems show ?case by (simp add: increment_step)
qed

lemma diamond_full_exhausted:
  "it_finished ((step (diamond_mp full None) ^^ 9)
     (forward_trace_iterator_init (diamond_mp full None) None))"
  by (simp add: example_simps)

section \<open>Equality of iterators and the end of a range\<close>

text \<open>
  Claim C8, as the specification states it: two iterators compare equal exactly when both
  are finished. The comparison is \<^verbatim>\<open>_finished == i_._finished\<close>, so two iterators
  that are both unfinished compare equal as well: a freshly constructed iterator equals
  itself although it is not finished.
\<close>

theorem iterator_eq_unfinished_counterexample:
  "iterator_eq (forward_trace_iterator_init (diamond_mp full None) None)
      (forward_trace_iterator_init (diamond_mp full None) None) \<noteq>
   (it_finished (forward_trace_iterator_init (diamond_mp full None) None) \<and>
    it_finished (forward_trace_iterator_init (diamond_mp full None) None))"
  by (simp add: iterator_eq_def)

text \<open>
  Claim C8, amended: two iterators compare equal exactly when their finished flags agree,
  that is when both are finished or both are unfinished. Two finished iterators compare
  equal, a finished and an unfinished one never do, and no other member of the iterator
  takes part in the comparison.
\<close>

theorem iterator_eq_finished_flags:
  "iterator_eq a b = (it_finished a = it_finished b) \<and>
   iterator_eq (a\<lparr>it_finished := True\<rparr>) (b\<lparr>it_finished := True\<rparr>) \<and>
   \<not> iterator_eq (a\<lparr>it_finished := True\<rparr>) (b\<lparr>it_finished := False\<rparr>) \<and>
   \<not> iterator_eq (a\<lparr>it_finished := False\<rparr>) (b\<lparr>it_finished := True\<rparr>) \<and>
   iterator_eq (a\<lparr>it_max_depth := md, it_mp := g, it_discovered := ds, it_to_visit := st,
                  it_current := c\<rparr>) b = iterator_eq a b"
  by (simp add: iterator_eq_def)

text \<open>
  Claim C10: a default-constructed iterator is finished, the range that starts at it
  yields no node, and it compares equal (on either side) to every finished iterator, so
  the consumer of a range that ends at it stops at an exhausted iterator.
\<close>

theorem default_iterator_is_end:
  "it_finished forward_trace_iterator_default \<and>
   range_nodes n forward_trace_iterator_default forward_trace_iterator_default = Some [] \<and>
   (it_finished it \<longrightarrow>
      iterator_eq it forward_trace_iterator_default \<and>
      iterator_eq forward_trace_iterator_default it \<and>
      range_nodes n it forward_trace_iterator_default = Some [])"
  by (cases n) (simp_all add: forward_trace_iterator_default_def iterator_eq_def)

theorem default_iterator_is_end_witness:
  "it_finished ((step (diamond_mp full None) ^^ 9)
      (forward_trace_iterator_init (diamond_mp full None) None)) \<and>
   iterator_eq ((step (diamond_mp full None) ^^ 9)
      (forward_trace_iterator_init (diamond_mp full None) None)) forward_trace_iterator_default \<and>
   iterator_eq forward_trace_iterator_default ((step (diamond_mp full None) ^^ 9)
      (forward_trace_iterator_init (diamond_mp full None) None))"
  using default_iterator_is_end [of 0 "(step (diamond_mp full None) ^^ 9)
      (forward_trace_iterator_init (diamond_mp full None) None)"] diamond_full_exhausted
  by simp

section \<open>The first node\<close>

text \<open>
  Claim C6, as the specification states it: the first node of a newly constructed iterator
  is the frame of the root. The constructor visits \<^verbatim>\<open>get_current_edge()\<close>, so on a
  metaprogram whose current edge is the edge from the root to A the first node is the
  frame of A.
\<close>

theorem first_node_counterexample:
  "wf_metaprogram (diamond_mp full (Some 0)) \<and>
   cgn_frame (deref (forward_trace_iterator_init (diamond_mp full (Some 0)) None)) \<noteq>
     get_root_frame (diamond_mp full (Some 0))"
  by (simp add: wf_metaprogram_def diamond_mp_def num_vertices_def example_edge_def
      valid_edge_def num_edges_def deref_def forward_trace_iterator_init_def cgn_frame_visit
      get_current_edge_def to_frame_def get_root_frame_def get_target_def get_root_vertex_def
      example_vertex_def)

text \<open>
  Claim C6, amended: the first node yielded by a newly constructed iterator is at depth 0
  and carries the frame of the metaprogram's current edge; it carries the frame of the
  root when the metaprogram has no current edge.
\<close>

theorem first_node_is_current_frame:
  "\<exists>ns. range_nodes (Suc n) (forward_trace_iterator_init g max_depth)
          forward_trace_iterator_default =
          Some (deref (forward_trace_iterator_init g max_depth) # ns) \<and>
        cgn_frame (deref (forward_trace_iterator_init g max_depth)) =
          (case get_current_edge g of None \<Rightarrow> get_root_frame g | Some e \<Rightarrow> to_frame g e) \<and>
        cgn_depth (deref (forward_trace_iterator_init g max_depth)) = 0"
proof -
  let ?it = "forward_trace_iterator_init g max_depth"
  have "it_mp (step g ?it) = Some g" by simp
  from range_nodes_total [OF this]
  obtain ns where ns: "range_nodes n (step g ?it) forward_trace_iterator_default = Some ns" ..
  have "range_nodes (Suc n) ?it forward_trace_iterator_default = Some (deref ?it # ns)"
    using ns by (simp add: increment_step iterator_eq_def forward_trace_iterator_default_def)
  moreover have "cgn_frame (deref ?it) =
      (case get_current_edge g of None \<Rightarrow> get_root_frame g | Some e \<Rightarrow> to_frame g e)"
    by (simp add: deref_def forward_trace_iterator_init_def cgn_frame_visit)
  moreover have "cgn_depth (deref ?it) = 0"
    by (simp add: deref_def forward_trace_iterator_init_def)
  ultimately show ?thesis by blast
qed

section \<open>The depth ceiling\<close>

lemma under_ceiling_visit:
  assumes "it_max_depth it = Some d"
    and "list_all (\<lambda>(edge, depth). depth \<le> d) (it_to_visit it)"
    and "k \<le> max d 0"
  shows "under_ceiling d (visit g it e k)"
  using assms
  by (auto simp add: under_ceiling_def visit_def Let_def ceiling_reached_def below_ceiling_def
      fold_push list_all_iff)

lemma under_ceiling_init: "under_ceiling d (forward_trace_iterator_init g (Some d))"
  unfolding forward_trace_iterator_init_def by (rule under_ceiling_visit) simp_all

lemma under_ceiling_step: "under_ceiling d it \<Longrightarrow> under_ceiling d (step g it)"
proof (cases "it_to_visit it")
  case Nil
  assume "under_ceiling d it"
  with Nil show ?thesis by (simp add: step_def under_ceiling_def)
next
  case (Cons x rest)
  assume u: "under_ceiling d it"
  obtain e k where x: "x = (e, k)" by (cases x)
  from u Cons x have "k \<le> d" by (simp add: under_ceiling_def)
  then have "k \<le> max d 0" by simp
  moreover from u Cons
  have "list_all (\<lambda>(edge, depth). depth \<le> d) (it_to_visit (it\<lparr>it_to_visit := rest\<rparr>))"
    by (simp add: under_ceiling_def)
  moreover from u have "it_max_depth (it\<lparr>it_to_visit := rest\<rparr>) = Some d"
    by (simp add: under_ceiling_def)
  ultimately have "under_ceiling d (visit g (it\<lparr>it_to_visit := rest\<rparr>) e k)"
    by (intro under_ceiling_visit)
  with Cons x show ?thesis by (simp add: step_def)
qed

lemma range_nodes_under_ceiling:
  assumes "it_mp it = Some g" and "under_ceiling d it"
    and "range_nodes n it end_it = Some ns" and "c \<in> set ns"
  shows "cgn_depth c \<le> max d 0 \<and> (d \<le> cgn_depth c \<longrightarrow> cgn_number_of_children c = 0)"
  using assms
proof (induction n arbitrary: it ns)
  case 0
  then show ?case by simp
next
  case (Suc n)
  show ?case
  proof (cases "iterator_eq it end_it")
    case True
    with Suc.prems show ?thesis by simp
  next
    case False
    with Suc.prems obtain ns' where ns': "range_nodes n (step g it) end_it = Some ns'"
      and ns: "ns = deref it # ns'"
      by (auto simp add: increment_step)
    show ?thesis
    proof (cases "c = deref it")
      case True
      with Suc.prems(2) show ?thesis by (simp add: under_ceiling_def deref_def)
    next
      case False
      with ns Suc.prems(4) have "c \<in> set ns'" by simp
      moreover have "it_mp (step g it) = Some g" using Suc.prems(1) by simp
      moreover have "under_ceiling d (step g it)" using Suc.prems(2) by (rule under_ceiling_step)
      ultimately show ?thesis using ns' Suc.IH by blast
    qed
  qed
qed

text \<open>
  Claim C4, as the specification states it: with a maximum depth \<open>d\<close> no node is deeper
  than \<open>d\<close>. The maximum depth is an \<^verbatim>\<open>optional<int>\<close>; with \<open>d = -1\<close> the
  constructor still yields the start node, at depth 0.
\<close>

theorem depth_ceiling_counterexample:
  "range_nodes 1 (forward_trace_iterator_init (diamond_mp full None) (Some (- 1)))
     forward_trace_iterator_default =
     Some [deref (forward_trace_iterator_init (diamond_mp full None) (Some (- 1)))] \<and>
   cgn_depth (deref (forward_trace_iterator_init (diamond_mp full None) (Some (- 1)))) > - 1"
  by (simp add: example_simps)

text \<open>
  Claim C4, amended: with a maximum depth \<open>d\<close>, no node yielded over the iteration is
  deeper than \<open>d\<close> when \<open>d\<close> is not negative (the start node, at depth 0, is the only
  node when it is), and every node at depth \<open>d\<close> or beyond reports child count 0,
  whatever the enabled out-degree of its vertex.
\<close>

theorem depth_ceiling:
  "\<exists>ns. range_nodes n (forward_trace_iterator_init g (Some d)) forward_trace_iterator_default =
          Some ns \<and>
        (\<forall>c \<in> set ns. cgn_depth c \<le> max d 0 \<and>
                       (d \<le> cgn_depth c \<longrightarrow> cgn_number_of_children c = 0))"
proof -
  let ?it = "forward_trace_iterator_init g (Some d)"
  have mp: "it_mp ?it = Some g" by simp
  from range_nodes_total [OF mp]
  obtain ns where ns: "range_nodes n ?it forward_trace_iterator_default = Some ns" ..
  have "\<forall>c \<in> set ns. cgn_depth c \<le> max d 0 \<and>
                       (d \<le> cgn_depth c \<longrightarrow> cgn_number_of_children c = 0)"
    using range_nodes_under_ceiling [OF mp under_ceiling_init ns] by blast
  with ns show ?thesis by blast
qed

theorem depth_ceiling_witness:
  "range_nodes 5 (forward_trace_iterator_init (diamond_mp full None) (Some 1))
     forward_trace_iterator_default =
     Some [\<lparr>cgn_frame = get_root_frame (diamond_mp full None), cgn_depth = 0,
             cgn_number_of_children = 2\<rparr>,
           \<lparr>cgn_frame = to_frame (diamond_mp full None) 4, cgn_depth = 1,
             cgn_number_of_children = 0\<rparr>,
           \<lparr>cgn_frame = to_frame (diamond_mp full None) 0, cgn_depth = 1,
             cgn_number_of_children = 0\<rparr>] \<and>
   cgn_depth \<lparr>cgn_frame = to_frame (diamond_mp full None) 4, cgn_depth = 1,
               cgn_number_of_children = 0\<rparr> \<le> max 1 0 \<and>
   get_enabled_out_degree (diamond_mp full None) (get_target (diamond_mp full None) 4) = 1 \<and>
   cgn_number_of_children \<lparr>cgn_frame = to_frame (diamond_mp full None) 4, cgn_depth = 1,
               cgn_number_of_children = 0\<rparr> = 0"
proof -
  let ?c = "\<lparr>cgn_frame = to_frame (diamond_mp full None) 4, cgn_depth = 1,
             cgn_number_of_children = 0\<rparr>"
  let ?ns = "[\<lparr>cgn_frame = get_root_frame (diamond_mp full None), cgn_depth = 0,
               cgn_number_of_children = 2\<rparr>, ?c,
             \<lparr>cgn_frame = to_frame (diamond_mp full None) 0, cgn_depth = 1,
               cgn_number_of_children = 0\<rparr>]"
  have run: "range_nodes 5 (forward_trace_iterator_init (diamond_mp full None) (Some 1))
     forward_trace_iterator_default = Some ?ns"
    by (simp add: example_simps)
  from depth_ceiling [of 5 "diamond_mp full None" 1] run
  have "\<forall>c \<in> set ?ns. cgn_depth c \<le> max 1 0 \<and>
          (1 \<le> cgn_depth c \<longrightarrow> cgn_number_of_children c = 0)"
    by simp
  then have "cgn_depth ?c \<le> max 1 0 \<and> cgn_number_of_children ?c = 0"
    by simp
  moreover have
    "get_enabled_out_degree (diamond_mp full None) (get_target (diamond_mp full None) 4) = 1"
    by (simp add: example_simps)
  ultimately show ?thesis using run by simp
qed

section \<open>Minimized mode\<close>

lemma filtered_out_edges_valid:
  "e \<in> set (get_filtered_out_edges g v) \<Longrightarrow> valid_edge g e"
  by (simp add: get_filtered_out_edges_def valid_edge_def)

lemma target_vertex_bound:
  assumes "wf_metaprogram g" and "entry_ok g (edge, d)"
  shows "target_vertex g edge < num_vertices g"
proof (cases edge)
  case None
  with assms(1) show ?thesis
    by (simp add: target_vertex_def get_root_vertex_def wf_metaprogram_def)
next
  case (Some e)
  with assms(2) have "e < length (mp_edges g)"
    by (simp add: entry_ok_def valid_edge_def num_edges_def)
  then have "mp_edges g ! e \<in> set (mp_edges g)" by simp
  with assms(1) have "ep_target (mp_edges g ! e) < num_vertices g"
    by (simp add: wf_metaprogram_def list_all_iff)
  with Some show ?thesis by (simp add: target_vertex_def get_target_def)
qed

lemma length_discovered_visit [simp]:
  "length (it_discovered (visit g it e d)) = length (it_discovered it)"
  by (simp add: visit_def Let_def)

lemma it_to_visit_visit:
  "\<exists>pushed. it_to_visit (visit g it e d) = pushed @ it_to_visit it \<and>
     (pushed = [] \<or> pushed = rev (map (\<lambda>oe. (Some oe, d + 1))
        (get_filtered_out_edges g (target_vertex g e))))"
  by (simp add: visit_def Let_def fold_push target_vertex_def)

lemma it_ok_visit:
  assumes "it_ok g it" and "\<not> it_finished it"
  shows "it_ok g (visit g it e d)"
proof -
  from it_to_visit_visit [of g it e d] obtain pushed where
    p: "it_to_visit (visit g it e d) = pushed @ it_to_visit it" and
    q: "pushed = [] \<or> pushed = rev (map (\<lambda>oe. (Some oe, d + 1))
        (get_filtered_out_edges g (target_vertex g e)))"
    by blast
  from q have "list_all (entry_ok g) pushed"
    by (auto simp add: list_all_iff entry_ok_def filtered_out_edges_valid)
  with assms p show ?thesis by (simp add: it_ok_def)
qed

lemma it_ok_step: "it_ok g it \<Longrightarrow> it_ok g (step g it)"
proof (cases "it_to_visit it")
  case Nil
  assume "it_ok g it"
  with Nil show ?thesis by (simp add: step_def it_ok_def)
next
  case (Cons x rest)
  assume ok: "it_ok g it"
  obtain e d where x: "x = (e, d)" by (cases x)
  from ok Cons have "it_ok g (it\<lparr>it_to_visit := rest\<rparr>)" and "\<not> it_finished (it\<lparr>it_to_visit := rest\<rparr>)"
    by (auto simp add: it_ok_def)
  then have "it_ok g (visit g (it\<lparr>it_to_visit := rest\<rparr>) e d)" by (rule it_ok_visit)
  with Cons x show ?thesis by (simp add: step_def)
qed

lemma it_ok_init: "wf_metaprogram g \<Longrightarrow> it_ok g (forward_trace_iterator_init g md)"
  unfolding forward_trace_iterator_init_def
  by (rule it_ok_visit) (simp_all add: it_ok_def wf_metaprogram_def get_state_def)

lemma it_ok_steps: "it_ok g it \<Longrightarrow> it_ok g ((step g ^^ n) it)"
  by (induction n) (simp_all add: it_ok_step)

lemma nth_mark_mono: "xs ! u \<Longrightarrow> xs[v := True] ! u"
  by (cases "u = v"; cases "v < length xs") (simp_all add: list_update_beyond)

lemma discovered_visit_mono:
  "it_discovered it ! u \<Longrightarrow> it_discovered (visit g it e d) ! u"
  by (simp add: visit_def Let_def nth_mark_mono)

lemma discovered_step_mono: "it_discovered it ! u \<Longrightarrow> it_discovered (step g it) ! u"
  by (auto simp add: step_def discovered_visit_mono split: list.splits prod.splits intro: discovered_visit_mono)

lemma discovered_steps_mono: "it_discovered it ! u \<Longrightarrow> it_discovered ((step g ^^ n) it) ! u"
  by (induction n) (simp_all add: discovered_step_mono)

lemma discovered_after_visit:
  assumes "get_mode g \<noteq> full" and "target_vertex g e < length (it_discovered it)"
  shows "it_discovered (visit g it e d) ! target_vertex g e"
  using assms by (simp add: visit_def Let_def target_vertex_def)

lemma children_of_discovered:
  "it_discovered it ! target_vertex g e \<Longrightarrow>
   cgn_number_of_children (it_current (visit g it e d)) = 0"
  by (simp add: visit_def Let_def target_vertex_def)

lemma visited_vertex_Suc:
  "visited_vertex g md (Suc k) = Some v \<longleftrightarrow>
   (\<exists>e d rest. it_to_visit ((step g ^^ k) (forward_trace_iterator_init g md)) = (e, d) # rest \<and>
      target_vertex g e = v)"
  by (auto simp add: advance_funpow split: list.splits)

lemma visited_vertex_discovered:
  assumes wf: "wf_metaprogram g" and mode: "get_mode g \<noteq> full"
    and vis: "visited_vertex g md i = Some v"
  shows "it_discovered ((step g ^^ i) (forward_trace_iterator_init g md)) ! v"
proof (cases i)
  case 0
  with vis have v: "v = target_vertex g (get_current_edge g)" by simp
  from wf have "entry_ok g (get_current_edge g, 0)"
    by (simp add: entry_ok_def wf_metaprogram_def get_current_edge_def)
  from target_vertex_bound [OF wf this] wf
  have "target_vertex g (get_current_edge g) < length (discovered (get_state g))"
    by (simp add: wf_metaprogram_def get_state_def)
  with 0 v mode show ?thesis
    by (simp add: forward_trace_iterator_init_def discovered_after_visit)
next
  case (Suc k)
  let ?it = "(step g ^^ k) (forward_trace_iterator_init g md)"
  from vis Suc have "visited_vertex g md (Suc k) = Some v" by simp
  then obtain e d rest where st: "it_to_visit ?it = (e, d) # rest"
    and v: "target_vertex g e = v"
    unfolding visited_vertex_Suc by blast
  have ok: "it_ok g ?it" by (rule it_ok_steps) (rule it_ok_init [OF wf])
  with st have "entry_ok g (e, d)" by (simp add: it_ok_def)
  from target_vertex_bound [OF wf this] ok v
  have "target_vertex g e < length (it_discovered (?it\<lparr>it_to_visit := rest\<rparr>))"
    by (simp add: it_ok_def)
  from discovered_after_visit [OF mode this, of d] st v Suc show ?thesis
    by (simp add: step_def)
qed

lemma funpow_split: "i \<le> k \<Longrightarrow> (f ^^ k) x = (f ^^ (k - i)) ((f ^^ i) x)"
proof -
  assume "i \<le> k"
  have "(f ^^ ((k - i) + i)) x = (f ^^ (k - i)) ((f ^^ i) x)"
    by (simp only: funpow_add o_apply)
  with \<open>i \<le> k\<close> show ?thesis by simp
qed

text \<open>
  Claim C2: in minimized mode (any mode other than \<open>full\<close>), when the \<open>i\<close>-th and
  the \<open>j\<close>-th node of one traversal, \<open>i < j\<close>, come from visits of the same vertex,
  the \<open>j\<close>-th node reports child count 0: the first visit marks the vertex in the
  iterator's snapshot, and marks are never removed.
\<close>

theorem minimized_revisit_is_leaf:
  assumes "wf_metaprogram g" and "get_mode g \<noteq> full" and "i < j"
    and "visited_vertex g max_depth i = Some v"
    and "visited_vertex g max_depth j = Some v"
  shows "\<exists>it. advance j (forward_trace_iterator_init g max_depth) = Some it \<and>
              \<not> it_finished it \<and> cgn_number_of_children (deref it) = 0"
proof -
  let ?start = "forward_trace_iterator_init g max_depth"
  from assms(3) obtain k where j: "j = Suc k" and ik: "i \<le> k" by (cases j) auto
  let ?it = "(step g ^^ k) ?start"
  from assms(5) j have "visited_vertex g max_depth (Suc k) = Some v" by simp
  then obtain e d rest where st: "it_to_visit ?it = (e, d) # rest"
    and v: "target_vertex g e = v"
    unfolding visited_vertex_Suc by blast
  have "it_discovered ((step g ^^ i) ?start) ! v"
    using assms(1,2,4) by (rule visited_vertex_discovered)
  then have "it_discovered ((step g ^^ (k - i)) ((step g ^^ i) ?start)) ! v"
    by (rule discovered_steps_mono)
  with ik have disc: "it_discovered ?it ! v"
    by (simp only: funpow_split [symmetric])
  have ok: "it_ok g ?it" by (rule it_ok_steps) (rule it_ok_init [OF assms(1)])
  with st have nf: "\<not> it_finished ?it" by (auto simp add: it_ok_def)
  have stp: "(step g ^^ j) ?start = visit g (?it\<lparr>it_to_visit := rest\<rparr>) e d"
    using st j by (simp add: step_def)
  have "cgn_number_of_children (it_current (visit g (?it\<lparr>it_to_visit := rest\<rparr>) e d)) = 0"
    using disc v by (intro children_of_discovered) simp
  with stp nf have "\<not> it_finished ((step g ^^ j) ?start) \<and>
      cgn_number_of_children (deref ((step g ^^ j) ?start)) = 0"
    by (simp add: deref_def)
  then show ?thesis by (simp add: advance_funpow)
qed


theorem minimized_revisit_is_leaf_witness:
  "wf_metaprogram (diamond_mp minimized None) \<and>
   get_mode (diamond_mp minimized None) \<noteq> full \<and>
   (2::nat) < 6 \<and>
   visited_vertex (diamond_mp minimized None) None 2 = Some 2 \<and>
   visited_vertex (diamond_mp minimized None) None 6 = Some 2 \<and>
   get_enabled_out_degree (diamond_mp minimized None) 2 = 2 \<and>
   cgn_number_of_children (deref ((step (diamond_mp minimized None) ^^ 6)
     (forward_trace_iterator_init (diamond_mp minimized None) None))) = 0"
proof -
  let ?g = "diamond_mp minimized None"
  have wf: "wf_metaprogram ?g"
    by (simp add: wf_metaprogram_def diamond_mp_def num_vertices_def example_edge_def)
  have mode: "get_mode ?g \<noteq> full" by (simp add: get_mode_def diamond_mp_def)
  have lt: "(2::nat) < 6" by simp
  have v2: "visited_vertex ?g None 2 = Some 2" by (simp add: example_simps)
  have v5: "visited_vertex ?g None 6 = Some 2" by (simp add: example_simps)
  have deg: "get_enabled_out_degree ?g 2 = 2" by (simp add: example_simps)
  from minimized_revisit_is_leaf [OF wf mode lt v2 v5]
  obtain it where "advance 6 (forward_trace_iterator_init ?g None) = Some it"
    and "cgn_number_of_children (deref it) = 0"
    by blast
  then have "cgn_number_of_children (deref ((step ?g ^^ 6)
     (forward_trace_iterator_init ?g None))) = 0"
    by (simp add: advance_funpow)
  with wf mode lt v2 v5 deg show ?thesis by blast
qed

section \<open>Termination\<close>

lemma finished_step_mono: "it_finished it \<Longrightarrow> it_finished (step g it)"
  by (simp add: step_def split: list.splits prod.splits)

lemma finished_steps_mono:
  "it_finished it \<Longrightarrow> it_finished ((step g ^^ n) it)"
  by (induction n) (simp_all add: finished_step_mono)

lemma finished_later:
  assumes "it_finished ((step g ^^ n) it)" and "n \<le> m"
  shows "it_finished ((step g ^^ m) it)"
proof -
  from assms(1) have "it_finished ((step g ^^ (m - n)) ((step g ^^ n) it))"
    by (rule finished_steps_mono)
  with assms(2) show ?thesis by (simp only: funpow_split [symmetric])
qed

lemma finished_by_measure:
  fixes M :: "forward_trace_iterator \<Rightarrow> nat"
  assumes dec: "\<And>it. I it \<Longrightarrow> it_to_visit it \<noteq> [] \<Longrightarrow> I (step g it) \<and> M (step g it) < M it"
  shows "I it \<Longrightarrow> it_finished ((step g ^^ Suc (M it)) it)"
proof (induction "M it" arbitrary: it rule: less_induct)
  case less
  have swap: "(step g ^^ Suc (M it)) it = (step g ^^ M it) (step g it)"
    by (simp only: funpow_Suc_right o_apply)
  show ?case
  proof (cases "it_to_visit it = []")
    case True
    then have "it_finished (step g it)" by (simp add: step_def)
    then have "it_finished ((step g ^^ M it) (step g it))" by (rule finished_steps_mono)
    with swap show ?thesis by simp
  next
    case False
    from dec [OF less.prems False] have I: "I (step g it)" and lt: "M (step g it) < M it"
      by simp_all
    from less.hyps [OF lt I] have "it_finished ((step g ^^ Suc (M (step g it))) (step g it))" .
    moreover from lt have "Suc (M (step g it)) \<le> M it" by simp
    ultimately have "it_finished ((step g ^^ M it) (step g it))" by (rule finished_later)
    with swap show ?thesis by simp
  qed
qed

lemma it_to_visit_visit_eq:
  "it_to_visit (visit g it e d) =
   (if \<not> it_discovered it ! target_vertex g e \<and> below_ceiling (it_max_depth it) d
    then rev (map (\<lambda>oe. (Some oe, d + 1)) (get_filtered_out_edges g (target_vertex g e)))
    else []) @ it_to_visit it"
  by (simp add: visit_def Let_def fold_push target_vertex_def)

lemma it_discovered_visit_eq:
  "it_discovered (visit g it e d) =
   (if \<not> it_discovered it ! target_vertex g e \<and> get_mode g \<noteq> full
    then (it_discovered it)[target_vertex g e := True]
    else it_discovered it)"
  by (simp add: visit_def Let_def target_vertex_def)

lemma length_filtered_out_edges: "length (get_filtered_out_edges g v) \<le> num_edges g"
proof -
  have "length (get_filtered_out_edges g v) \<le> length [0..<num_edges g]"
    unfolding get_filtered_out_edges_def by (rule length_filter_le)
  then show ?thesis by simp
qed

lemma ceiling_measure_pushed:
  "sum_list (map (\<lambda>(edge, depth). weight b (nat (d - depth)))
     (rev (map (\<lambda>oe. (Some oe, k)) es))) = length es * weight b (nat (d - k))"
  by (induction es) simp_all

lemma ceiling_measure_visit:
  assumes "it_max_depth it = Some d"
  shows "ceiling_measure g d (visit g it e k) < weight (num_edges g) (nat (d - k)) + ceiling_measure g d it"
proof (cases "\<not> it_discovered it ! target_vertex g e \<and> below_ceiling (it_max_depth it) k")
  case False
  have "0 < weight (num_edges g) (nat (d - k))" by (cases "nat (d - k)") simp_all
  moreover from False have "it_to_visit (visit g it e k) = it_to_visit it"
    by (auto simp add: it_to_visit_visit_eq)
  ultimately show ?thesis
    by (simp add: ceiling_measure_def)
next
  case True
  with assms have "k < d" by (simp add: below_ceiling_def)
  then have "nat (d - k) = Suc (nat (d - (k + 1)))" by simp
  then have w: "weight (num_edges g) (nat (d - k)) =
      1 + num_edges g * weight (num_edges g) (nat (d - (k + 1)))"
    by simp
  let ?es = "get_filtered_out_edges g (target_vertex g e)"
  let ?w = "weight (num_edges g) (nat (d - (k + 1)))"
  have "length ?es * ?w \<le> num_edges g * ?w"
    by (rule mult_le_mono1) (rule length_filtered_out_edges)
  then have lt: "length ?es * ?w < Suc (num_edges g * ?w)" by (rule le_imp_less_Suc)
  from True have "it_to_visit (visit g it e k) =
      rev (map (\<lambda>oe. (Some oe, k + 1)) ?es) @ it_to_visit it"
    by (simp add: it_to_visit_visit_eq)
  then have "ceiling_measure g d (visit g it e k) = length ?es * ?w + ceiling_measure g d it"
    by (simp add: ceiling_measure_def ceiling_measure_pushed)
  with lt w show ?thesis by linarith
qed

lemma ceiling_measure_step:
  assumes "it_max_depth it = Some d" and "it_to_visit it \<noteq> []"
  shows "it_max_depth (step g it) = Some d \<and> ceiling_measure g d (step g it) < ceiling_measure g d it"
proof -
  from assms(2) obtain e k rest where st: "it_to_visit it = (e, k) # rest"
    by (cases "it_to_visit it") auto
  from assms(1) have "it_max_depth (it\<lparr>it_to_visit := rest\<rparr>) = Some d" by simp
  from ceiling_measure_visit [OF this, of g e k] st assms(1) show ?thesis
    by (simp add: step_def ceiling_measure_def)
qed

lemma undiscovered_mark:
  "v < length xs \<Longrightarrow> \<not> xs ! v \<Longrightarrow> Suc (undiscovered (xs[v := True])) = undiscovered xs"
proof (induction xs arbitrary: v)
  case Nil
  then show ?case by simp
next
  case (Cons x xs)
  then show ?case by (cases v) (simp_all add: undiscovered_def)
qed

lemma minimized_measure_visit:
  assumes "get_mode g \<noteq> full" and "target_vertex g e < length (it_discovered it)"
  shows "minimized_measure g (visit g it e d) < Suc (minimized_measure g it)"
proof (cases "it_discovered it ! target_vertex g e")
  case True
  then have "it_to_visit (visit g it e d) = it_to_visit it"
    and "it_discovered (visit g it e d) = it_discovered it"
    by (simp_all add: it_to_visit_visit_eq it_discovered_visit_eq)
  then show ?thesis
    by (simp add: minimized_measure_def)
next
  case False
  let ?v = "target_vertex g e"
  from undiscovered_mark [OF assms(2) False]
  have u: "undiscovered (it_discovered it) = Suc (undiscovered ((it_discovered it)[?v := True]))"
    by simp
  have len: "length (get_filtered_out_edges g ?v) \<le> num_edges g"
    by (rule length_filtered_out_edges)
  from False assms(1) have disc: "it_discovered (visit g it e d) = (it_discovered it)[?v := True]"
    by (simp add: it_discovered_visit_eq)
  from False have "length (it_to_visit (visit g it e d)) \<le>
      length (get_filtered_out_edges g ?v) + length (it_to_visit it)"
    by (simp add: it_to_visit_visit_eq)
  with len have "length (it_to_visit (visit g it e d)) \<le> num_edges g + length (it_to_visit it)"
    by simp
  with disc u show ?thesis
    by (simp add: minimized_measure_def)
qed

lemma minimized_measure_step:
  assumes wf: "wf_metaprogram g" and mode: "get_mode g \<noteq> full"
    and ok: "it_ok g it" and st: "it_to_visit it \<noteq> []"
  shows "it_ok g (step g it) \<and> minimized_measure g (step g it) < minimized_measure g it"
proof -
  from st obtain e k rest where s: "it_to_visit it = (e, k) # rest"
    by (cases "it_to_visit it") auto
  with ok have "entry_ok g (e, k)" by (simp add: it_ok_def)
  from target_vertex_bound [OF wf this] ok
  have "target_vertex g e < length (it_discovered (it\<lparr>it_to_visit := rest\<rparr>))"
    by (simp add: it_ok_def)
  from minimized_measure_visit [OF mode this, of k] s
  have "minimized_measure g (step g it) < minimized_measure g it"
    by (simp add: step_def minimized_measure_def)
  with ok show ?thesis by (simp add: it_ok_step)
qed

text \<open>
  Claim C9: on every well-formed (hence finite) metaprogram, the iteration reaches the
  finished state after finitely many increments whenever a maximum depth is set or the
  mode is not \<open>full\<close>. Under a ceiling the weighted size of the pending stack
  decreases with every increment; in minimized mode the number of unmarked vertices,
  weighed against the length of the stack, does.
\<close>

theorem traversal_terminates:
  assumes "wf_metaprogram g" and "max_depth \<noteq> None \<or> get_mode g \<noteq> full"
  shows "\<exists>n it. advance n (forward_trace_iterator_init g max_depth) = Some it \<and> it_finished it"
proof -
  let ?start = "forward_trace_iterator_init g max_depth"
  have "\<exists>n. it_finished ((step g ^^ n) ?start)"
  proof (cases max_depth)
    case (Some d)
    have "it_finished ((step g ^^ Suc (ceiling_measure g d ?start)) ?start)"
    proof (rule finished_by_measure [where I = "\<lambda>it. it_max_depth it = Some d"])
      show "it_max_depth ?start = Some d" using Some by (simp add: forward_trace_iterator_init_def)
    qed (rule ceiling_measure_step)
    then show ?thesis ..
  next
    case None
    with assms(2) have mode: "get_mode g \<noteq> full" by simp
    have "it_finished ((step g ^^ Suc (minimized_measure g ?start)) ?start)"
    proof (rule finished_by_measure [where I = "it_ok g"])
      show "it_ok g ?start" by (rule it_ok_init [OF assms(1)])
    qed (rule minimized_measure_step [OF assms(1) mode])
    then show ?thesis ..
  qed
  then show ?thesis by (simp add: advance_funpow)
qed

theorem traversal_terminates_witness:
  "wf_metaprogram (diamond_mp minimized None) \<and>
   get_mode (diamond_mp minimized None) \<noteq> full \<and>
   (\<exists>n it. advance n (forward_trace_iterator_init (diamond_mp minimized None) None) = Some it \<and>
            it_finished it) \<and>
   wf_metaprogram (diamond_mp full None) \<and>
   (\<exists>n it. advance n (forward_trace_iterator_init (diamond_mp full None) (Some 1)) = Some it \<and>
            it_finished it)"
proof -
  have wf: "wf_metaprogram (diamond_mp m None)" for m
    by (simp add: wf_metaprogram_def diamond_mp_def num_vertices_def example_edge_def)
  have mode: "get_mode (diamond_mp minimized None) \<noteq> full"
    by (simp add: get_mode_def diamond_mp_def)
  from mode have "None \<noteq> (None :: int option) \<or> get_mode (diamond_mp minimized None) \<noteq> full"
    by simp
  from traversal_terminates [OF wf this]
  have a: "\<exists>n it. advance n (forward_trace_iterator_init (diamond_mp minimized None) None) =
      Some it \<and> it_finished it" .
  have "Some (1::int) \<noteq> None \<or> get_mode (diamond_mp full None) \<noteq> full" by simp
  from traversal_terminates [OF wf this]
  have b: "\<exists>n it. advance n (forward_trace_iterator_init (diamond_mp full None) (Some 1)) =
      Some it \<and> it_finished it" .
  from wf mode a b show ?thesis by blast
qed

section \<open>The order of siblings\<close>

lemma range_nodes_unfinished:
  assumes "it_mp it = Some g" and "\<forall>k\<le>m. \<not> it_finished ((step g ^^ k) it)"
  shows "range_nodes (Suc m) it forward_trace_iterator_default =
         Some (deref it # nodes_after g m it)"
  using assms
proof (induction m arbitrary: it)
  case 0
  then show ?case
    by (simp add: iterator_eq_def forward_trace_iterator_default_def increment_step nodes_after_def)
next
  case (Suc m)
  from Suc.prems(2) have nf: "\<not> it_finished it" by (auto dest: spec [of _ 0])
  have "\<forall>k\<le>m. \<not> it_finished ((step g ^^ k) (step g it))"
  proof (intro allI impI)
    fix k assume "k \<le> m"
    then have "Suc k \<le> Suc m" by simp
    with Suc.prems(2) have "\<not> it_finished ((step g ^^ Suc k) it)" by blast
    then show "\<not> it_finished ((step g ^^ k) (step g it))"
      by (simp add: funpow_swap1)
  qed
  moreover have "it_mp (step g it) = Some g" using Suc.prems(1) by simp
  ultimately have ih: "range_nodes (Suc m) (step g it) forward_trace_iterator_default =
         Some (deref (step g it) # nodes_after g m (step g it))"
    by (rule Suc.IH [rotated])
  have "nodes_after g (Suc m) it = deref (step g it) # nodes_after g m (step g it)"
  proof -
    have "[1..<Suc (Suc m)] = 1 # map Suc [1..<Suc m]"
      by (simp only: map_Suc_upt upt_conv_Cons)
    then show ?thesis
      by (simp add: nodes_after_def funpow_swap1 del: upt_Suc)
  qed
  with ih nf Suc.prems(1) show ?case
    by (simp add: iterator_eq_def forward_trace_iterator_default_def increment_step
        del: range_nodes.simps(2) funpow.simps)
      (simp add: iterator_eq_def forward_trace_iterator_default_def increment_step)
qed


lemma step_top:
  "it_to_visit it = (e, k) # rest \<Longrightarrow> step g it = visit g (it\<lparr>it_to_visit := rest\<rparr>) e k"
  by (simp add: step_def)

lemma visit_pushes_deeper:
  "\<exists>pushed. it_to_visit (visit g it e k) = pushed @ it_to_visit it \<and>
            list_all (\<lambda>(e', k'). k' = k + 1) pushed"
  by (auto simp add: it_to_visit_visit_eq list_all_iff)

lemma nodes_after_Suc:
  "nodes_after g (Suc m) it = nodes_after g m it @ [deref ((step g ^^ Suc m) it)]"
  by (simp add: nodes_after_def)

lemma rev_pushed_children_nth:
  assumes "j < length (get_filtered_out_edges g v)"
  shows "drop j (rev (pushed_children g v d)) =
         (Some (rev (get_filtered_out_edges g v) ! j), d + 1) #
           drop (Suc j) (rev (pushed_children g v d))"
proof -
  let ?R = "rev (pushed_children g v d)"
  have R: "?R = map (\<lambda>out_edge. (Some out_edge, d + 1)) (rev (get_filtered_out_edges g v))"
    by (simp add: pushed_children_def rev_map)
  from assms have len: "j < length ?R" by (simp add: pushed_children_def)
  then have "drop j ?R = ?R ! j # drop (Suc j) ?R" by (simp add: Cons_nth_drop_Suc)
  moreover from assms have "?R ! j = (Some (rev (get_filtered_out_edges g v) ! j), d + 1)"
    by (simp only: R) simp
  ultimately show ?thesis by simp
qed

lemma children_reverse_steps:
  assumes stack: "it_to_visit it1 = rev (pushed_children g v d) @ below"
    and nf: "\<not> it_finished it1"
  shows "\<exists>m j above. m \<le> n \<and> j \<le> length (get_filtered_out_edges g v) \<and>
      it_to_visit ((step g ^^ m) it1) = above @ drop j (rev (pushed_children g v d)) @ below \<and>
      list_all (\<lambda>(e', k). d + 1 < k) above \<and>
      (\<forall>k\<le>m. \<not> it_finished ((step g ^^ k) it1)) \<and>
      map cgn_frame (filter (\<lambda>c. cgn_depth c = d + 1) (nodes_after g m it1)) =
        map (to_frame g) (take j (rev (get_filtered_out_edges g v))) \<and>
      (m < n \<longrightarrow> above = [] \<and> j = length (get_filtered_out_edges g v))"
proof (induction n)
  case 0
  have "it_to_visit ((step g ^^ 0) it1) = [] @ drop 0 (rev (pushed_children g v d)) @ below"
    using stack by simp
  moreover have "\<forall>k\<le>(0::nat). \<not> it_finished ((step g ^^ k) it1)" using nf by simp
  moreover have "map cgn_frame (filter (\<lambda>c. cgn_depth c = d + 1) (nodes_after g 0 it1)) =
        map (to_frame g) (take 0 (rev (get_filtered_out_edges g v)))"
    by (simp add: nodes_after_def)
  ultimately show ?case by (intro exI [of _ 0] exI [of _ "[]"]) simp
next
  case (Suc n)
  let ?es = "get_filtered_out_edges g v"
  let ?R = "rev (pushed_children g v d)"
  from Suc.IH obtain m j above where mn: "m \<le> n" and j: "j \<le> length ?es"
    and st: "it_to_visit ((step g ^^ m) it1) = above @ drop j ?R @ below"
    and ab: "list_all (\<lambda>(e', k). d + 1 < k) above"
    and nfs: "\<forall>k\<le>m. \<not> it_finished ((step g ^^ k) it1)"
    and fr: "map cgn_frame (filter (\<lambda>c. cgn_depth c = d + 1) (nodes_after g m it1)) =
        map (to_frame g) (take j (rev ?es))"
    and fin: "m < n \<longrightarrow> above = [] \<and> j = length ?es"
    by blast
  let ?itm = "(step g ^^ m) it1"
  from nfs have nfm: "\<not> it_finished ?itm" by blast
  show ?case
  proof (cases "above = [] \<and> j = length ?es")
    case True
    with mn j st ab nfs fr show ?thesis
      by (intro exI [of _ m] exI [of _ j] exI [of _ above]) simp
  next
    case False
    with fin have m: "m = n" using mn by auto
    show ?thesis
    proof (cases above)
      case (Cons x above')
      obtain e' k' where x: "x = (e', k')" by (cases x)
      from ab Cons x have k': "d + 1 < k'" and ab': "list_all (\<lambda>(e', k). d + 1 < k) above'"
        by simp_all
      from st Cons x have top: "it_to_visit ?itm = (e', k') # (above' @ drop j ?R @ below)"
        by simp
      let ?nx = "visit g (?itm\<lparr>it_to_visit := above' @ drop j ?R @ below\<rparr>) e' k'"
      from step_top [OF top] have nx: "(step g ^^ Suc m) it1 = ?nx" by simp
      from visit_pushes_deeper [of g "?itm\<lparr>it_to_visit := above' @ drop j ?R @ below\<rparr>" e' k']
      obtain pushed where p: "it_to_visit ?nx = pushed @ above' @ drop j ?R @ below"
        and pd: "list_all (\<lambda>(e', k). k = k' + 1) pushed"
        by auto
      from pd k' have "list_all (\<lambda>(e', k). d + 1 < k) pushed"
        by (auto simp add: list_all_iff)
      with ab' have ab2: "list_all (\<lambda>(e', k). d + 1 < k) (pushed @ above')" by simp
      from p nx have st2: "it_to_visit ((step g ^^ Suc m) it1) =
          (pushed @ above') @ drop j ?R @ below"
        by simp
      have nf2: "\<forall>k\<le>Suc m. \<not> it_finished ((step g ^^ k) it1)"
      proof (intro allI impI)
        fix k assume "k \<le> Suc m"
        then consider "k \<le> m" | "k = Suc m" by linarith
        then show "\<not> it_finished ((step g ^^ k) it1)"
        proof cases
          case 1 with nfs show ?thesis by blast
        next
          case 2
          from nfm have "\<not> it_finished ?nx" by simp
          with nx 2 show ?thesis by simp
        qed
      qed
      have "cgn_depth (deref ((step g ^^ Suc m) it1)) = k'"
        by (simp only: nx) (simp add: deref_def)
      with k' have "cgn_depth (deref ((step g ^^ Suc m) it1)) \<noteq> d + 1" by simp
      with fr have fr2: "map cgn_frame (filter (\<lambda>c. cgn_depth c = d + 1)
          (nodes_after g (Suc m) it1)) = map (to_frame g) (take j (rev ?es))"
        by (simp only: nodes_after_Suc) simp
      from m j st2 ab2 nf2 fr2 show ?thesis
        by (intro exI [of _ "Suc m"] exI [of _ j] exI [of _ "pushed @ above'"]) simp
    next
      case Nil
      with False j have jl: "j < length ?es" by simp
      from rev_pushed_children_nth [OF jl, of d] st Nil
      have top: "it_to_visit ?itm =
          (Some (rev ?es ! j), d + 1) # (drop (Suc j) ?R @ below)"
        by simp
      let ?nx = "visit g (?itm\<lparr>it_to_visit := drop (Suc j) ?R @ below\<rparr>)
          (Some (rev ?es ! j)) (d + 1)"
      from step_top [OF top] have nx: "(step g ^^ Suc m) it1 = ?nx" by simp
      from visit_pushes_deeper [of g "?itm\<lparr>it_to_visit := drop (Suc j) ?R @ below\<rparr>"
          "Some (rev ?es ! j)" "d + 1"]
      obtain pushed where p: "it_to_visit ?nx = pushed @ drop (Suc j) ?R @ below"
        and pd: "list_all (\<lambda>(e', k). k = d + 1 + 1) pushed"
        by auto
      from pd have ab2: "list_all (\<lambda>(e', k). d + 1 < k) pushed"
        by (auto simp add: list_all_iff)
      from p nx have st2: "it_to_visit ((step g ^^ Suc m) it1) =
          pushed @ drop (Suc j) ?R @ below"
        by simp
      have nf2: "\<forall>k\<le>Suc m. \<not> it_finished ((step g ^^ k) it1)"
      proof (intro allI impI)
        fix k assume "k \<le> Suc m"
        then consider "k \<le> m" | "k = Suc m" by linarith
        then show "\<not> it_finished ((step g ^^ k) it1)"
        proof cases
          case 1 with nfs show ?thesis by blast
        next
          case 2
          from nfm have "\<not> it_finished ?nx" by simp
          with nx 2 show ?thesis by simp
        qed
      qed
      have dep: "cgn_depth (deref ((step g ^^ Suc m) it1)) = d + 1"
        by (simp only: nx) (simp add: deref_def)
      have frm: "cgn_frame (deref ((step g ^^ Suc m) it1)) = to_frame g (rev ?es ! j)"
        by (simp only: nx) (simp add: deref_def cgn_frame_visit)
      from jl have "take (Suc j) (rev ?es) = take j (rev ?es) @ [rev ?es ! j]"
        by (simp add: take_Suc_conv_app_nth)
      with fr dep frm have fr2: "map cgn_frame (filter (\<lambda>c. cgn_depth c = d + 1)
          (nodes_after g (Suc m) it1)) = map (to_frame g) (take (Suc j) (rev ?es))"
        by (simp only: nodes_after_Suc) simp
      from jl have "Suc j \<le> length ?es" by simp
      with m st2 ab2 nf2 fr2 show ?thesis
        by (intro exI [of _ "Suc m"] exI [of _ "Suc j"] exI [of _ pushed]) simp
    qed
  qed
qed


text \<open>
  Claim C5: when an increment visits a vertex and expands its children (the vertex is not
  marked and the depth is below the ceiling), the entries of the children lie on the
  pending stack in the reverse of the order in which the filtered out-edges are
  enumerated, on top of what was pending before. From then on, after any number \<open>n\<close> of
  further increments, the nodes yielded at the children's depth are the frames of the
  first \<open>j\<close> out-edges taken in reverse order, while everything above the remaining
  children on the stack is deeper than they are; and once the stack is back to what was
  pending before (at some increment \<open>m < n\<close>), all the children have been yielded, in
  reverse order.
\<close>

theorem children_in_reverse_order:
  assumes "it_mp it = Some g" and "\<not> it_finished it"
    and "it_to_visit it = (edge, d) # below"
    and "\<not> it_discovered it ! target_vertex g edge"
    and "below_ceiling (it_max_depth it) d"
  shows "\<exists>it1. increment it = Some it1 \<and>
     it_to_visit it1 = rev (pushed_children g (target_vertex g edge) d) @ below \<and>
     (\<forall>n. \<exists>m j above itm ns.
        m \<le> n \<and> j \<le> length (get_filtered_out_edges g (target_vertex g edge)) \<and>
        advance m it1 = Some itm \<and>
        range_nodes (Suc m) it1 forward_trace_iterator_default = Some (deref it1 # ns) \<and>
        it_to_visit itm =
          above @ drop j (rev (pushed_children g (target_vertex g edge) d)) @ below \<and>
        list_all (\<lambda>(e', k). d + 1 < k) above \<and>
        map cgn_frame (filter (\<lambda>c. cgn_depth c = d + 1) ns) =
          map (to_frame g) (take j (rev (get_filtered_out_edges g (target_vertex g edge)))) \<and>
        (m < n \<longrightarrow> above = [] \<and> j = length (get_filtered_out_edges g (target_vertex g edge))))"
proof -
  let ?v = "target_vertex g edge"
  let ?it1 = "step g it"
  have inc: "increment it = Some ?it1" using assms(1) by (rule increment_step)
  have mp1: "it_mp ?it1 = Some g" using assms(1) by simp
  have it1: "?it1 = visit g (it\<lparr>it_to_visit := below\<rparr>) edge d"
    using assms(3) by (rule step_top)
  have stack: "it_to_visit ?it1 = rev (pushed_children g ?v d) @ below"
    using assms(4,5) by (simp only: it1) (simp add: it_to_visit_visit_eq pushed_children_def)
  have nf: "\<not> it_finished ?it1" using assms(2) by (simp only: it1) simp
  have "\<exists>m j above itm ns.
        m \<le> n \<and> j \<le> length (get_filtered_out_edges g ?v) \<and>
        advance m ?it1 = Some itm \<and>
        range_nodes (Suc m) ?it1 forward_trace_iterator_default = Some (deref ?it1 # ns) \<and>
        it_to_visit itm = above @ drop j (rev (pushed_children g ?v d)) @ below \<and>
        list_all (\<lambda>(e', k). d + 1 < k) above \<and>
        map cgn_frame (filter (\<lambda>c. cgn_depth c = d + 1) ns) =
          map (to_frame g) (take j (rev (get_filtered_out_edges g ?v))) \<and>
        (m < n \<longrightarrow> above = [] \<and> j = length (get_filtered_out_edges g ?v))" for n
  proof -
    from children_reverse_steps [OF stack nf, of n]
    obtain m j above where a: "m \<le> n" "j \<le> length (get_filtered_out_edges g ?v)"
      "it_to_visit ((step g ^^ m) ?it1) = above @ drop j (rev (pushed_children g ?v d)) @ below"
      "list_all (\<lambda>(e', k). d + 1 < k) above"
      and nfs: "\<forall>k\<le>m. \<not> it_finished ((step g ^^ k) ?it1)"
      and b: "map cgn_frame (filter (\<lambda>c. cgn_depth c = d + 1) (nodes_after g m ?it1)) =
        map (to_frame g) (take j (rev (get_filtered_out_edges g ?v)))"
      "m < n \<longrightarrow> above = [] \<and> j = length (get_filtered_out_edges g ?v)"
      by blast
    have adv: "advance m ?it1 = Some ((step g ^^ m) ?it1)" using mp1 by (rule advance_funpow)
    have rng: "range_nodes (Suc m) ?it1 forward_trace_iterator_default =
        Some (deref ?it1 # nodes_after g m ?it1)"
      using mp1 nfs by (rule range_nodes_unfinished)
    from a adv rng b show ?thesis by blast
  qed
  with inc stack show ?thesis by blast
qed

lemma diamond_after_C:
  "step (diamond_mp full None) (forward_trace_iterator_init (diamond_mp full None) None) =
   \<lparr>it_finished = False, it_max_depth = None, it_mp = Some (diamond_mp full None),
    it_discovered = [False, False, False, False, False, False],
    it_to_visit = [(Some 5, 2), (Some 0, 1)],
    it_current = \<lparr>cgn_frame = to_frame (diamond_mp full None) 4, cgn_depth = 1,
                   cgn_number_of_children = 1\<rparr>\<rparr>"
  by (simp add: example_simps)

theorem children_in_reverse_order_witness:
  "it_to_visit (step (diamond_mp full None)
      (forward_trace_iterator_init (diamond_mp full None) None)) = (Some 5, 2) # [(Some 0, 1)] \<and>
   target_vertex (diamond_mp full None) (Some 5) = 2 \<and>
   get_filtered_out_edges (diamond_mp full None) 2 = [2, 3] \<and>
   (\<exists>it1. increment (step (diamond_mp full None)
        (forward_trace_iterator_init (diamond_mp full None) None)) = Some it1 \<and>
      it_to_visit it1 = [(Some 3, 3), (Some 2, 3), (Some 0, 1)] \<and>
      (\<exists>ns. range_nodes 3 it1 forward_trace_iterator_default = Some (deref it1 # ns) \<and>
        map cgn_frame (filter (\<lambda>c. cgn_depth c = 3) ns) =
          [to_frame (diamond_mp full None) 3, to_frame (diamond_mp full None) 2]))"
proof -
  let ?g = "diamond_mp full None"
  let ?it = "step ?g (forward_trace_iterator_init ?g None)"
  have mp: "it_mp ?it = Some ?g" by simp
  have nf: "\<not> it_finished ?it" by (simp add: diamond_after_C)
  have st: "it_to_visit ?it = (Some 5, 2) # [(Some 0, 1)]" by (simp add: diamond_after_C)
  have tv: "target_vertex ?g (Some 5) = 2" by (simp add: example_simps)
  have nd: "\<not> it_discovered ?it ! target_vertex ?g (Some 5)"
    by (simp add: tv diamond_after_C)
  have bc: "below_ceiling (it_max_depth ?it) 2" by (simp add: diamond_after_C below_ceiling_def)
  have es: "get_filtered_out_edges ?g 2 = [2, 3]" by (simp add: example_simps)
  have pc: "rev (pushed_children ?g 2 2) = [(Some 3, 3), (Some 2, 3)]"
    by (simp add: pushed_children_def es)
  from children_in_reverse_order [OF mp nf st nd bc]
  obtain it1 where inc: "increment ?it = Some it1"
    and stack: "it_to_visit it1 = [(Some 3, 3), (Some 2, 3), (Some 0, 1)]"
    and all: "\<forall>n. \<exists>m j above itm ns.
        m \<le> n \<and> j \<le> length (get_filtered_out_edges ?g 2) \<and>
        advance m it1 = Some itm \<and>
        range_nodes (Suc m) it1 forward_trace_iterator_default = Some (deref it1 # ns) \<and>
        it_to_visit itm = above @ drop j (rev (pushed_children ?g 2 2)) @ [(Some 0, 1)] \<and>
        list_all (\<lambda>(e', k). 2 + 1 < k) above \<and>
        map cgn_frame (filter (\<lambda>c. cgn_depth c = 2 + 1) ns) =
          map (to_frame ?g) (take j (rev (get_filtered_out_edges ?g 2))) \<and>
        (m < n \<longrightarrow> above = [] \<and> j = length (get_filtered_out_edges ?g 2))"
    unfolding tv pc by auto
  have it1: "it1 = step ?g ?it" using inc by (simp add: increment_step)
  have "range_nodes 3 it1 forward_trace_iterator_default =
      Some [deref it1,
            \<lparr>cgn_frame = to_frame ?g 3, cgn_depth = 3, cgn_number_of_children = 0\<rparr>,
            \<lparr>cgn_frame = to_frame ?g 2, cgn_depth = 3, cgn_number_of_children = 0\<rparr>]"
    unfolding it1 diamond_after_C by (simp add: example_simps)
  then have rng: "\<exists>ns. range_nodes 3 it1 forward_trace_iterator_default = Some (deref it1 # ns) \<and>
        map cgn_frame (filter (\<lambda>c. cgn_depth c = 3) ns) = [to_frame ?g 3, to_frame ?g 2]"
    by simp
  show ?thesis
  proof (intro conjI exI [of _ it1])
    show "it_to_visit ?it = (Some 5, 2) # [(Some 0, 1)]" by (rule st)
    show "target_vertex ?g (Some 5) = 2" by (rule tv)
    show "get_filtered_out_edges ?g 2 = [2, 3]" by (rule es)
    show "increment ?it = Some it1" by (rule inc)
    show "it_to_visit it1 = [(Some 3, 3), (Some 2, 3), (Some 0, 1)]" by (rule stack)
    show "\<exists>ns. range_nodes 3 it1 forward_trace_iterator_default = Some (deref it1 # ns) \<and>
        map cgn_frame (filter (\<lambda>c. cgn_depth c = 3) ns) = [to_frame ?g 3, to_frame ?g 2]"
      by (rule rng)
  qed
qed

section \<open>Full mode\<close>

lemma out_edge_in_edge_rel:
  assumes "e \<in> set (get_filtered_out_edges g v)"
  shows "(v, get_target g e) \<in> edge_rel g"
proof -
  from assms have e: "e < length (mp_edges g)" and s: "ep_source (mp_edges g ! e) = v"
    by (simp_all add: get_filtered_out_edges_def num_edges_def get_source_def)
  from e have "mp_edges g ! e \<in> set (mp_edges g)" by simp
  then have "(ep_source (mp_edges g ! e), ep_target (mp_edges g ! e)) \<in> edge_rel g"
    unfolding edge_rel_def by (rule imageI)
  with s show ?thesis by (simp add: get_target_def)
qed

lemma distinct_filtered_out_edges: "distinct (get_filtered_out_edges g v)"
  by (simp add: get_filtered_out_edges_def)

lemma paths_from_unfold:
  "paths_from g v =
   insert [] (\<Union>e\<in>set (get_filtered_out_edges g v). (#) e ` paths_from g (get_target g e))"
proof (intro set_eqI iffI)
  fix es assume "es \<in> paths_from g v"
  then show "es \<in> insert [] (\<Union>e\<in>set (get_filtered_out_edges g v).
      (#) e ` paths_from g (get_target g e))"
    by (cases es) (auto simp add: paths_from_def)
next
  fix es assume "es \<in> insert [] (\<Union>e\<in>set (get_filtered_out_edges g v).
      (#) e ` paths_from g (get_target g e))"
  then show "es \<in> paths_from g v"
    by (auto simp add: paths_from_def)
qed

lemma card_cons_union:
  assumes "distinct es" and "\<forall>e\<in>set es. finite (A e)"
  shows "card (\<Union>e\<in>set es. (#) e ` A e) = sum_list (map (\<lambda>e. card (A e)) es)"
  using assms
proof (induction es)
  case Nil
  show ?case by simp
next
  case (Cons e es)
  let ?U = "\<Union>x\<in>set es. (#) x ` A x"
  from Cons.prems have fin: "finite ((#) e ` A e)" and finU: "finite ?U" by auto
  from Cons.prems(1) have "(#) e ` A e \<inter> ?U = {}" by auto
  with fin finU have "card ((#) e ` A e \<union> ?U) = card ((#) e ` A e) + card ?U"
    by (simp add: card_Un_disjoint)
  moreover have "card ((#) e ` A e) = card (A e)"
    by (rule card_image) simp
  moreover from Cons have "card ?U = sum_list (map (\<lambda>e. card (A e)) es)" by simp
  ultimately show ?case by simp
qed

lemma paths_from_finite_card:
  assumes "\<forall>e\<in>set (get_filtered_out_edges g v). finite (paths_from g (get_target g e))"
  shows "finite (paths_from g v) \<and>
    card (paths_from g v) =
      Suc (sum_list (map (\<lambda>e. card (paths_from g (get_target g e))) (get_filtered_out_edges g v)))"
proof -
  let ?U = "\<Union>e\<in>set (get_filtered_out_edges g v). (#) e ` paths_from g (get_target g e)"
  from assms have finU: "finite ?U" by auto
  have nin: "[] \<notin> ?U" by auto
  have pf: "paths_from g v = insert [] ?U" by (rule paths_from_unfold)
  from finU have "finite (insert [] ?U)" by simp
  moreover from finU nin have "card (insert [] ?U) = Suc (card ?U)" by simp
  moreover have "card ?U =
      sum_list (map (\<lambda>e. card (paths_from g (get_target g e))) (get_filtered_out_edges g v))"
    using distinct_filtered_out_edges assms by (rule card_cons_union)
  ultimately show ?thesis by (simp only: pf)
qed


lemma fresh_visit_full:
  assumes "get_mode g = full" and "fresh g it" and "target_vertex g e < num_vertices g"
  shows "fresh g (visit g it e d) \<and>
         it_to_visit (visit g it e d) = rev (pushed_children g (target_vertex g e) d) @ it_to_visit it"
proof -
  from assms(2,3) have nd: "\<not> it_discovered it ! target_vertex g e"
    by (simp add: fresh_def list_all_length)
  from assms(2) have bc: "below_ceiling (it_max_depth it) d"
    by (simp add: fresh_def below_ceiling_def)
  from nd assms(1) have "it_discovered (visit g it e d) = it_discovered it"
    by (simp add: it_discovered_visit_eq)
  with assms(2) have "fresh g (visit g it e d)" by (simp add: fresh_def)
  moreover from nd bc have "it_to_visit (visit g it e d) =
      rev (pushed_children g (target_vertex g e) d) @ it_to_visit it"
    by (simp add: it_to_visit_visit_eq pushed_children_def)
  ultimately show ?thesis ..
qed

lemma runs_off_append:
  assumes "runs_off g it a mid" and "runs_off g ((step g ^^ a) it) b below"
  shows "runs_off g it (a + b) below"
proof -
  have add: "(step g ^^ (a + k)) it = (step g ^^ k) ((step g ^^ a) it)" for k
    by (simp only: add.commute [of a k] funpow_add o_apply)
  have "\<not> it_finished ((step g ^^ k) it)" if "k \<le> a + b" for k
  proof (cases "k \<le> a")
    case True
    with assms(1) show ?thesis by (simp add: runs_off_def)
  next
    case False
    then obtain k' where k: "k = a + k'" by (metis le_add_diff_inverse nat_le_linear)
    with that have "k' \<le> b" by simp
    with assms(2) have "\<not> it_finished ((step g ^^ k') ((step g ^^ a) it))"
      by (simp add: runs_off_def)
    with k show ?thesis by (simp add: add del: funpow.simps)
  qed
  with assms(2) show ?thesis by (simp add: runs_off_def add)
qed

lemma runs_off_stack:
  assumes each: "\<And>x it below. x \<in> set entries \<Longrightarrow> fresh g it \<Longrightarrow> it_to_visit it = x # below \<Longrightarrow>
      runs_off g it (path_count g x) below"
    and "fresh g it" and "it_to_visit it = entries @ below"
  shows "runs_off g it (sum_list (map (path_count g) entries)) below"
  using assms
proof (induction entries arbitrary: it)
  case Nil
  then show ?case by (simp add: runs_off_def fresh_def)
next
  case (Cons x entries)
  from Cons.prems(3) have "it_to_visit it = x # (entries @ below)" by simp
  with Cons.prems(1,2) have first: "runs_off g it (path_count g x) (entries @ below)" by simp
  then have "fresh g ((step g ^^ path_count g x) it)"
    and "it_to_visit ((step g ^^ path_count g x) it) = entries @ below"
    by (simp_all add: runs_off_def)
  with Cons.prems(1)
  have "runs_off g ((step g ^^ path_count g x) it) (sum_list (map (path_count g) entries)) below"
    by (intro Cons.IH) simp_all
  with first have "runs_off g it (path_count g x + sum_list (map (path_count g) entries)) below"
    by (rule runs_off_append)
  then show ?case by simp
qed


lemma full_visit_runs_off:
  assumes wf: "wf_metaprogram g" and mode: "get_mode g = full" and acyc: "acyclic (edge_rel g)"
  shows "finite (paths_from g v) \<and>
    (\<forall>it e d below. fresh g it \<longrightarrow> it_to_visit it = (e, d) # below \<longrightarrow> entry_ok g (e, d) \<longrightarrow>
       target_vertex g e = v \<longrightarrow> runs_off g it (card (paths_from g v)) below)"
proof -
  have "finite (edge_rel g)" by (simp add: edge_rel_def)
  then have "wf ((edge_rel g)\<inverse>)" using acyc by (rule finite_acyclic_wf_converse)
  then show ?thesis
  proof (induction v rule: wf_induct_rule)
    case (less v)
    let ?out = "get_filtered_out_edges g v"
    let ?n = "\<lambda>e. card (paths_from g (get_target g e))"
    have child: "finite (paths_from g (get_target g oe)) \<and>
      (\<forall>it e d below. fresh g it \<longrightarrow> it_to_visit it = (e, d) # below \<longrightarrow> entry_ok g (e, d) \<longrightarrow>
         target_vertex g e = get_target g oe \<longrightarrow>
         runs_off g it (card (paths_from g (get_target g oe))) below)"
      if "oe \<in> set ?out" for oe
    proof -
      from that have "(v, get_target g oe) \<in> edge_rel g" by (rule out_edge_in_edge_rel)
      then have "(get_target g oe, v) \<in> (edge_rel g)\<inverse>" by simp
      then show ?thesis by (rule less.IH)
    qed
    then have "\<forall>e\<in>set ?out. finite (paths_from g (get_target g e))" by blast
    from paths_from_finite_card [OF this]
    have fin: "finite (paths_from g v)"
      and card: "card (paths_from g v) = Suc (sum_list (map ?n ?out))"
      by simp_all
    have "runs_off g it (card (paths_from g v)) below"
      if fr: "fresh g it" and st: "it_to_visit it = (e, d) # below"
        and ok: "entry_ok g (e, d)" and tv: "target_vertex g e = v"
      for it e d below
    proof -
      let ?it1 = "step g it"
      let ?entries = "rev (pushed_children g v d)"
      from target_vertex_bound [OF wf ok] tv have vb: "target_vertex g e < num_vertices g" by simp
      from fr have "fresh g (it\<lparr>it_to_visit := below\<rparr>)" by (simp add: fresh_def)
      from fresh_visit_full [OF mode this vb, of d] st tv
      have fr1: "fresh g ?it1" and st1: "it_to_visit ?it1 = ?entries @ below"
        by (simp_all add: step_def)
      have one: "runs_off g it 1 (?entries @ below)"
        using fr fr1 st1 by (auto simp add: runs_off_def fresh_def le_Suc_eq)
      have "runs_off g ?it1 (sum_list (map (path_count g) ?entries)) below"
      proof (rule runs_off_stack [OF _ fr1 st1])
        fix x it' below'
        assume x: "x \<in> set ?entries" and f': "fresh g it'" and s': "it_to_visit it' = x # below'"
        from x obtain oe where oe: "oe \<in> set ?out" and xe: "x = (Some oe, d + 1)"
          by (auto simp add: pushed_children_def)
        from oe have "entry_ok g (Some oe, d + 1)"
          by (simp add: entry_ok_def filtered_out_edges_valid)
        moreover have "target_vertex g (Some oe) = get_target g oe" by (simp add: target_vertex_def)
        ultimately have "runs_off g it' (card (paths_from g (get_target g oe))) below'"
          using child [OF oe] f' s' xe by blast
        then show "runs_off g it' (path_count g x) below'"
          by (simp add: path_count_def xe target_vertex_def)
      qed
      moreover have "sum_list (map (path_count g) ?entries) = sum_list (map ?n ?out)"
      proof -
        have "map (path_count g) (pushed_children g v d) = map ?n ?out"
          by (simp add: pushed_children_def path_count_def target_vertex_def)
        then show ?thesis by (simp only: rev_map [symmetric] sum_list_rev)
      qed
      ultimately have "runs_off g ((step g ^^ 1) it) (sum_list (map ?n ?out)) below" by simp
      with one have "runs_off g it (1 + sum_list (map ?n ?out)) below" by (rule runs_off_append)
      with card show ?thesis by simp
    qed
    with fin show ?case by blast
  qed
qed

lemma range_nodes_of_finished:
  "it_finished it \<Longrightarrow> range_nodes n it forward_trace_iterator_default = Some []"
  by (cases n) (simp_all add: iterator_eq_def forward_trace_iterator_default_def)

lemma range_nodes_complete:
  assumes "it_mp it = Some g" and "\<forall>k\<le>m. \<not> it_finished ((step g ^^ k) it)"
    and "it_finished ((step g ^^ Suc m) it)" and "Suc m \<le> n"
  shows "range_nodes n it forward_trace_iterator_default = Some (deref it # nodes_after g m it)"
  using assms
proof (induction m arbitrary: it n)
  case 0
  from "0.prems"(4) obtain n' where n: "n = Suc n'" by (cases n) auto
  from "0.prems"(2) have nf: "\<not> it_finished it" by simp
  from "0.prems"(3) have "it_finished (step g it)" by simp
  then have "range_nodes n' (step g it) forward_trace_iterator_default = Some []"
    by (rule range_nodes_of_finished)
  with nf "0.prems"(1) n show ?case
    by (simp add: iterator_eq_def forward_trace_iterator_default_def increment_step nodes_after_def)
next
  case (Suc m)
  from Suc.prems(4) obtain n' where n: "n = Suc n'" and n': "Suc m \<le> n'" by (cases n) auto
  from Suc.prems(2) have nf: "\<not> it_finished it" by (auto dest: spec [of _ 0])
  have "\<forall>k\<le>m. \<not> it_finished ((step g ^^ k) (step g it))"
  proof (intro allI impI)
    fix k assume "k \<le> m"
    then have "Suc k \<le> Suc m" by simp
    with Suc.prems(2) have "\<not> it_finished ((step g ^^ Suc k) it)" by blast
    then show "\<not> it_finished ((step g ^^ k) (step g it))"
      by (simp add: funpow_swap1)
  qed
  moreover have "it_mp (step g it) = Some g" using Suc.prems(1) by simp
  moreover from Suc.prems(3) have "it_finished ((step g ^^ Suc m) (step g it))"
    by (simp add: funpow_swap1)
  ultimately have ih: "range_nodes n' (step g it) forward_trace_iterator_default =
         Some (deref (step g it) # nodes_after g m (step g it))"
    using n' by (intro Suc.IH)
  have "nodes_after g (Suc m) it = deref (step g it) # nodes_after g m (step g it)"
  proof -
    have "[1..<Suc (Suc m)] = 1 # map Suc [1..<Suc m]"
      by (simp only: map_Suc_upt upt_conv_Cons)
    then show ?thesis
      by (simp add: nodes_after_def funpow_swap1 del: upt_Suc)
  qed
  with ih nf Suc.prems(1) n show ?case
    by (simp add: iterator_eq_def forward_trace_iterator_default_def increment_step)
qed

lemma wf_diamond: "wf_metaprogram (diamond_mp m None)"
  by (simp add: wf_metaprogram_def diamond_mp_def num_vertices_def example_edge_def)

lemma wf_diamond_at_A: "wf_metaprogram (diamond_mp m (Some 0))"
  by (simp add: wf_metaprogram_def diamond_mp_def num_vertices_def example_edge_def
      valid_edge_def num_edges_def)

lemma acyclic_diamond: "acyclic (edge_rel (diamond_mp m c))"
proof (rule acyclicI_order)
  fix a b assume "(a, b) \<in> edge_rel (diamond_mp m c)"
  then show "(if b = 0 then 3 else if b = 1 \<or> b = 5 then 2 else if b = 2 then 1 else (0::nat)) <
      (if a = 0 then 3 else if a = 1 \<or> a = 5 then 2 else if a = 2 then 1 else (0::nat))"
    by (auto simp add: edge_rel_def diamond_mp_def example_edge_def)
qed

lemma diamond_paths_from_root: "card (paths_from (diamond_mp m c) 0) = 9"
proof -
  let ?g = "diamond_mp m c"
  have out: "get_filtered_out_edges ?g 0 = [0, 4]" "get_filtered_out_edges ?g (Suc 0) = [Suc 0]"
    "get_filtered_out_edges ?g 2 = [2, 3]" "get_filtered_out_edges ?g 3 = []"
    "get_filtered_out_edges ?g 4 = []" "get_filtered_out_edges ?g 5 = [5]"
    by (simp_all add: example_simps)
  have tg: "get_target ?g 0 = Suc 0" "get_target ?g (Suc 0) = 2" "get_target ?g 2 = 3"
    "get_target ?g 3 = 4" "get_target ?g 4 = 5" "get_target ?g 5 = 2"
    by (simp_all add: example_simps)
  have p3: "paths_from ?g 3 = {[]}" by (subst paths_from_unfold) (simp add: out)
  have p4: "paths_from ?g 4 = {[]}" by (subst paths_from_unfold) (simp add: out)
  have p2: "paths_from ?g 2 = {[], [2], [3]}"
    by (subst paths_from_unfold) (auto simp add: out tg p3 p4)
  have p1: "paths_from ?g (Suc 0) = {[], [Suc 0], [Suc 0, 2], [Suc 0, 3]}"
    by (subst paths_from_unfold) (auto simp add: out tg p2)
  have p5: "paths_from ?g 5 = {[], [5], [5, 2], [5, 3]}"
    by (subst paths_from_unfold) (auto simp add: out tg p2)
  have "paths_from ?g 0 =
      {[], [0], [0, Suc 0], [0, Suc 0, 2], [0, Suc 0, 3], [4], [4, 5], [4, 5, 2], [4, 5, 3]}"
    by (subst paths_from_unfold) (auto simp add: out tg p1 p5)
  then show ?thesis by simp
qed

text \<open>
  Claim C3, as the specification states it: in \<open>full\<close> mode without a ceiling over an
  acyclic graph, the number of nodes equals the number of paths that start at the root.
  The constructor starts at the metaprogram's current edge: on the example graph with
  the edge from the root to A as the current edge, the traversal yields the 4 nodes
  below A, and there are 9 paths from the root.
\<close>

theorem full_mode_counts_paths_counterexample:
  "wf_metaprogram (diamond_mp full (Some 0)) \<and>
   get_mode (diamond_mp full (Some 0)) = full \<and>
   none_discovered (diamond_mp full (Some 0)) \<and>
   acyclic (edge_rel (diamond_mp full (Some 0))) \<and>
   map_option length (range_nodes 10 (forward_trace_iterator_init (diamond_mp full (Some 0)) None)
     forward_trace_iterator_default) = Some 4 \<and>
   it_finished ((step (diamond_mp full (Some 0)) ^^ 4)
     (forward_trace_iterator_init (diamond_mp full (Some 0)) None)) \<and>
   card (paths_from (diamond_mp full (Some 0)) (get_root_vertex (diamond_mp full (Some 0)))) = 9"
proof -
  let ?g = "diamond_mp full (Some 0)"
  have "get_mode ?g = full" by (simp add: get_mode_def diamond_mp_def)
  moreover have "none_discovered ?g" by (simp add: none_discovered_def get_state_def diamond_mp_def)
  moreover have "map_option length (range_nodes 10 (forward_trace_iterator_init ?g None)
     forward_trace_iterator_default) = Some 4"
    by (simp add: example_simps)
  moreover have "it_finished ((step ?g ^^ 4) (forward_trace_iterator_init ?g None))"
    by (simp add: example_simps)
  moreover have "get_root_vertex ?g = 0" by (simp add: get_root_vertex_def diamond_mp_def)
  ultimately show ?thesis
    using wf_diamond_at_A acyclic_diamond diamond_paths_from_root by simp
qed

text \<open>
  Claim C3, amended: in \<open>full\<close> mode without a ceiling, over a well-formed metaprogram
  whose graph is acyclic and whose state marks no vertex as discovered, the iteration
  finishes, and the number of nodes it yields equals the number of distinct paths along
  filtered out-edges that start at the vertex the traversal starts from: the target of
  the metaprogram's current edge, which is the root when there is no current edge.
\<close>

theorem full_mode_counts_paths:
  assumes wf: "wf_metaprogram g" and mode: "get_mode g = full"
    and nd: "none_discovered g" and acyc: "acyclic (edge_rel g)"
  shows "\<exists>n0 it ns.
      advance n0 (forward_trace_iterator_init g None) = Some it \<and> it_finished it \<and>
      (\<forall>n\<ge>n0. range_nodes n (forward_trace_iterator_init g None) forward_trace_iterator_default =
          Some ns) \<and>
      length ns = card (paths_from g (target_vertex g (get_current_edge g)))"
proof -
  let ?start = "forward_trace_iterator_init g None"
  let ?v = "target_vertex g (get_current_edge g)"
  let ?base = "\<lparr>it_finished = False, it_max_depth = None, it_mp = Some g,
        it_discovered = discovered (get_state g), it_to_visit = [(get_current_edge g, 0)],
        it_current = call_graph_node_default\<rparr>"
  have st: "step g ?base = ?start"
    by (simp add: step_def forward_trace_iterator_init_def)
  from wf nd have fr: "fresh g ?base"
    by (simp add: fresh_def none_discovered_def wf_metaprogram_def get_state_def)
  from wf have ok: "entry_ok g (get_current_edge g, 0)"
    by (simp add: entry_ok_def wf_metaprogram_def get_current_edge_def)
  from full_visit_runs_off [OF wf mode acyc, of ?v] fr ok
  have run: "runs_off g ?base (card (paths_from g ?v)) []"
    and fin: "finite (paths_from g ?v)"
    by simp_all
  have "[] \<in> paths_from g ?v" by (simp add: paths_from_def)
  with fin have "card (paths_from g ?v) \<noteq> 0" by auto
  then obtain m where m: "card (paths_from g ?v) = Suc m" by (cases "card (paths_from g ?v)") auto
  have shift: "(step g ^^ Suc k) ?base = (step g ^^ k) ?start" for k
    by (simp only: funpow_Suc_right o_apply st)
  from run m have empty: "it_to_visit ((step g ^^ m) ?start) = []"
    and nfs: "\<forall>k\<le>m. \<not> it_finished ((step g ^^ k) ?start)"
    by (auto simp add: runs_off_def shift [symmetric] simp del: funpow.simps)
  from empty have ended: "it_finished ((step g ^^ Suc m) ?start)" by (simp add: step_def)
  have mp: "it_mp ?start = Some g" by simp
  have "advance (Suc m) ?start = Some ((step g ^^ Suc m) ?start)" using mp by (rule advance_funpow)
  moreover have "\<forall>n\<ge>Suc m. range_nodes n ?start forward_trace_iterator_default =
      Some (deref ?start # nodes_after g m ?start)"
    using range_nodes_complete [OF mp nfs ended] by blast
  moreover have "length (deref ?start # nodes_after g m ?start) = card (paths_from g ?v)"
    by (simp add: nodes_after_def m)
  ultimately show ?thesis using ended by blast
qed


lemma diamond_full_unfinished:
  "\<not> it_finished ((step (diamond_mp full None) ^^ 8)
     (forward_trace_iterator_init (diamond_mp full None) None))"
  by (simp add: example_simps)

theorem full_mode_counts_paths_witness:
  "wf_metaprogram (diamond_mp full None) \<and>
   get_mode (diamond_mp full None) = full \<and>
   none_discovered (diamond_mp full None) \<and>
   acyclic (edge_rel (diamond_mp full None)) \<and>
   target_vertex (diamond_mp full None) (get_current_edge (diamond_mp full None)) = 0 \<and>
   it_finished ((step (diamond_mp full None) ^^ 9)
     (forward_trace_iterator_init (diamond_mp full None) None)) \<and>
   (\<exists>ns. range_nodes 9 (forward_trace_iterator_init (diamond_mp full None) None)
       forward_trace_iterator_default = Some ns \<and>
     length ns = 9 \<and> card (paths_from (diamond_mp full None) 0) = length ns)"
proof -
  let ?g = "diamond_mp full None"
  let ?start = "forward_trace_iterator_init ?g None"
  have mode: "get_mode ?g = full" by (simp add: get_mode_def diamond_mp_def)
  have nd: "none_discovered ?g" by (simp add: none_discovered_def get_state_def diamond_mp_def)
  have tv: "target_vertex ?g (get_current_edge ?g) = 0" by (simp add: example_simps)
  have "\<not> it_finished ((step ?g ^^ k) ?start)" if "k \<le> 8" for k
    using finished_later [OF _ that, of ?g ?start] diamond_full_unfinished by blast
  then have nfs: "\<forall>k\<le>8. \<not> it_finished ((step ?g ^^ k) ?start)" by blast
  have mp: "it_mp ?start = Some ?g" by simp
  have nine: "Suc 8 = 9" by simp
  have known: "range_nodes n ?start forward_trace_iterator_default =
      Some (deref ?start # nodes_after ?g 8 ?start)" if "9 \<le> n" for n
    using range_nodes_complete [OF mp nfs] diamond_full_exhausted that by (simp only: nine)
  from full_mode_counts_paths [OF wf_diamond mode nd acyclic_diamond]
  obtain n0 ns where all: "\<forall>n\<ge>n0. range_nodes n ?start forward_trace_iterator_default = Some ns"
    and len: "length ns = card (paths_from ?g 0)"
    unfolding tv by blast
  from all have "range_nodes (max n0 9) ?start forward_trace_iterator_default = Some ns" by simp
  moreover have "range_nodes (max n0 9) ?start forward_trace_iterator_default =
      Some (deref ?start # nodes_after ?g 8 ?start)"
    by (rule known) simp
  ultimately have ns: "ns = deref ?start # nodes_after ?g 8 ?start" by simp
  then have l9: "length ns = 9" by (simp add: nodes_after_def)
  from known [of 9] ns have "range_nodes 9 ?start forward_trace_iterator_default = Some ns"
    by simp
  with l9 len have "\<exists>ns. range_nodes 9 ?start forward_trace_iterator_default = Some ns \<and>
     length ns = 9 \<and> card (paths_from ?g 0) = length ns"
    by simp
  with wf_diamond mode nd acyclic_diamond tv diamond_full_exhausted show ?thesis by simp
qed

section \<open>The builder\<close>

lemmas builder_simps =
  handle_template_begin_def handle_template_end_def handle_macro_expansion_begin_def
  handle_rescanning_def handle_expanded_code_def handle_macro_expansion_end_def
  handle_token_generation_def handle_token_skipping_def handle_include_begin_def
  handle_include_end_def handle_define_def handle_undefine_def
  handle_preprocessing_condition_begin_def handle_preprocessing_condition_end_def
  handle_preprocessing_else_def handle_preprocessing_endif_def handle_error_directive_def
  handle_line_directive_def handle_evaluation_end_def
  begin_detail_def leaf_detail_def open_edge_def leaf_edge_def close_edge_def
  add_edge_from_top_def add_fresh_vertex_def add_vertex_def mp_add_vertex_def mp_add_edge_def
  Let_def

lemma handle_begin_stack:
  assumes "is_begin ev"
  shows "\<exists>b' e. handle_event ev b = Inr b' \<and> edge_stack b' = e # edge_stack b"
  using assms
  by (cases ev) (simp_all add: is_begin_def builder_simps split: option.splits prod.splits)

lemma handle_end_stack:
  assumes "is_end ev" and "edge_stack b = e # rest"
  shows "\<exists>b'. handle_event ev b = Inr b' \<and> edge_stack b' = rest"
  using assms
  by (cases ev) (simp_all add: is_end_def builder_simps)

lemma handle_end_underflow:
  assumes "is_end ev" and "edge_stack b = []"
  shows "handle_event ev b = Inl end_without_begin"
  using assms
  by (cases ev) (simp_all add: is_end_def builder_simps)

lemma handle_leaf_stack:
  assumes "\<not> is_begin ev" and "\<not> is_end ev" and "\<not> is_evaluation_end ev"
  shows "\<exists>b'. handle_event ev b = Inr b' \<and> edge_stack b' = edge_stack b"
  using assms
  by (cases ev) (simp_all add: is_begin_def is_end_def builder_simps split: prod.splits)

lemma balanced_from_runs:
  assumes "balanced_from opened evs" and "length (edge_stack b) = length opened"
  shows "\<exists>b'. run_events evs b = Inr b' \<and> edge_stack b' = []"
  using assms
proof (induction evs arbitrary: opened b)
  case Nil
  then show ?case by simp
next
  case (Cons ev evs)
  consider (bg) "is_begin ev" | (en) "\<not> is_begin ev" "is_end ev"
    | (ee) "\<not> is_begin ev" "\<not> is_end ev" "is_evaluation_end ev"
    | (lf) "\<not> is_begin ev" "\<not> is_end ev" "\<not> is_evaluation_end ev"
    by blast
  then show ?case
  proof cases
    case bg
    from handle_begin_stack [OF bg, of b] obtain b1 e where
      h: "handle_event ev b = Inr b1" and s: "edge_stack b1 = e # edge_stack b" by blast
    from bg Cons.prems(1) have "balanced_from (ev # opened) evs" by simp
    moreover from s Cons.prems(2) have "length (edge_stack b1) = length (ev # opened)" by simp
    ultimately obtain b' where "run_events evs b1 = Inr b'" "edge_stack b' = []"
      using Cons.IH by blast
    with h show ?thesis by simp
  next
    case en
    with Cons.prems(1) obtain bgn rest where o: "opened = bgn # rest"
      and bal: "balanced_from rest evs"
      by (cases opened) simp_all
    with Cons.prems(2) obtain e st where st: "edge_stack b = e # st" and len: "length st = length rest"
      by (cases "edge_stack b") simp_all
    from handle_end_stack [OF en(2) st] obtain b1 where
      h: "handle_event ev b = Inr b1" and s: "edge_stack b1 = st" by blast
    from s len have "length (edge_stack b1) = length rest" by simp
    with bal obtain b' where "run_events evs b1 = Inr b'" "edge_stack b' = []"
      using Cons.IH by blast
    with h show ?thesis by simp
  next
    case ee
    with Cons.prems(1) have o: "opened = []" and e: "evs = []" by simp_all
    from ee(3) obtain r where ev: "ev = ev_evaluation_end r" by (cases ev) simp_all
    from o Cons.prems(2) have "edge_stack b = []" by simp
    with ev e show ?thesis by (simp add: handle_evaluation_end_def)
  next
    case lf
    from handle_leaf_stack [OF lf, of b] obtain b1 where
      h: "handle_event ev b = Inr b1" and s: "edge_stack b1 = edge_stack b" by blast
    from lf Cons.prems(1) have "balanced_from opened evs" by simp
    moreover from s Cons.prems(2) have "length (edge_stack b1) = length opened" by simp
    ultimately obtain b' where "run_events evs b1 = Inr b'" "edge_stack b' = []"
      using Cons.IH by blast
    with h show ?thesis by simp
  qed
qed

lemmas builder_example_simps =
  builder_simps example_events_def example_template_events_def example_builder_def
  metaprogram_builder_init_def top_vertex_def get_target_def get_root_vertex_def
  num_vertices_def num_edges_def get_mode_def detail_enabled_def

lemma example_events_balanced: "balanced example_events"
  by (simp add: balanced_def example_events_def example_template_events_def is_begin_def
      is_end_def closes_def)

lemma example_targets:
  "template_begin_targets example_template_events example_builder =
     [((type_node ''X'', file_location ''a.hpp'' 1 1), 1),
      ((type_node ''Y'', file_location ''a.hpp'' 5 1), 2),
      ((type_node ''Z'', file_location ''a.hpp'' 9 1), 3),
      ((type_node ''Y'', file_location ''a.hpp'' 5 1), 2),
      ((type_node ''X'', file_location ''b.hpp'' 1 1), 4)]"
  by (simp add: builder_example_simps)

lemma example_runs: "\<exists>b. run_events example_template_events example_builder = Inr b"
  by (simp add: builder_example_simps)

text \<open>
  Claim C7: after a balanced sequence of events the builder has handled every event and
  its edge stack is empty. An end event on an empty edge stack and the end of the
  evaluation on a non-empty edge stack are structural faults: the handler returns the
  fault and no builder, and the events that follow are not handled.
\<close>

theorem balanced_nesting:
  "(balanced evs \<longrightarrow>
      (\<exists>b. run_events evs (metaprogram_builder_init mode root_name root_source_location) = Inr b \<and>
           edge_stack b = [])) \<and>
   (is_end ev \<and> edge_stack b0 = [] \<longrightarrow>
      handle_event ev b0 = Inl end_without_begin \<and>
      run_events (ev # rest) b0 = Inl end_without_begin) \<and>
   (edge_stack b0 \<noteq> [] \<longrightarrow>
      handle_evaluation_end result b0 = Inl evaluation_end_inside_begin \<and>
      run_events (ev_evaluation_end result # rest) b0 = Inl evaluation_end_inside_begin)"
proof (intro conjI impI)
  assume "balanced evs"
  then have "balanced_from [] evs" by (simp add: balanced_def)
  moreover have "length (edge_stack (metaprogram_builder_init mode root_name root_source_location)) =
      length ([] :: event list)"
    by (simp add: metaprogram_builder_init_def)
  ultimately show "\<exists>b. run_events evs (metaprogram_builder_init mode root_name root_source_location) =
      Inr b \<and> edge_stack b = []"
    by (rule balanced_from_runs)
next
  assume a: "is_end ev \<and> edge_stack b0 = []"
  then show "handle_event ev b0 = Inl end_without_begin" by (simp add: handle_end_underflow)
  with a show "run_events (ev # rest) b0 = Inl end_without_begin" by simp
next
  assume a: "edge_stack b0 \<noteq> []"
  then show "handle_evaluation_end result b0 = Inl evaluation_end_inside_begin"
    by (simp add: handle_evaluation_end_def)
  then show "run_events (ev_evaluation_end result # rest) b0 = Inl evaluation_end_inside_begin"
    by simp
qed


theorem balanced_nesting_witness:
  "balanced example_events \<and>
   (\<exists>b. run_events example_events example_builder = Inr b \<and> edge_stack b = []) \<and>
   is_end (ev_template_end 1) \<and> edge_stack example_builder = [] \<and>
   handle_event (ev_template_end 1) example_builder = Inl end_without_begin \<and>
   run_events [ev_template_end 1, ev_evaluation_end (result_type ''int'')] example_builder =
     Inl end_without_begin \<and>
   edge_stack (handle_template_begin template_instantiation ''X'' (file_location ''m.cpp'' 1 1)
      (file_location ''a.hpp'' 1 1) 1 example_builder) \<noteq> [] \<and>
   handle_evaluation_end (result_type ''int'')
     (handle_template_begin template_instantiation ''X'' (file_location ''m.cpp'' 1 1)
        (file_location ''a.hpp'' 1 1) 1 example_builder) = Inl evaluation_end_inside_begin"
proof -
  let ?b1 = "handle_template_begin template_instantiation ''X'' (file_location ''m.cpp'' 1 1)
      (file_location ''a.hpp'' 1 1) 1 example_builder"
  have e: "is_end (ev_template_end 1)" by (simp add: is_end_def)
  have s0: "edge_stack example_builder = []"
    by (simp add: example_builder_def metaprogram_builder_init_def)
  have s1: "edge_stack ?b1 \<noteq> []" by (simp add: builder_example_simps)
  from balanced_nesting [of example_events full "''main''" "file_location ''m.cpp'' 1 1"
      "ev_template_end 1" example_builder "[ev_evaluation_end (result_type ''int'')]"
      "result_type ''int''"]
    example_events_balanced e s0
  have a: "\<exists>b. run_events example_events example_builder = Inr b \<and> edge_stack b = []"
    and b: "handle_event (ev_template_end 1) example_builder = Inl end_without_begin"
    and c: "run_events [ev_template_end 1, ev_evaluation_end (result_type ''int'')] example_builder =
      Inl end_without_begin"
    by (simp_all add: example_builder_def)
  from balanced_nesting [of "[]" full "''main''" "file_location ''m.cpp'' 1 1"
      "ev_template_end 1" ?b1 "[]" "result_type ''int''"] s1
  have d: "handle_evaluation_end (result_type ''int'') ?b1 = Inl evaluation_end_inside_begin"
    by simp
  from example_events_balanced a e s0 b c s1 d show ?thesis by simp
qed

lemma nth_condition_result:
  "vp_node ((xs[i := (xs ! i)\<lparr>vp_condition_result := r\<rparr>]) ! v) = vp_node (xs ! v) \<and>
   vp_source_location ((xs[i := (xs ! i)\<lparr>vp_condition_result := r\<rparr>]) ! v) =
     vp_source_location (xs ! v)"
  by (cases "i = v"; cases "i < length xs") (simp_all add: list_update_beyond)

lemma handle_other_event:
  assumes "template_key ev = None" and "handle_event ev b = Inr b'"
  shows "element_vertex_map b' = element_vertex_map b \<and> keeps_vertices b b'"
  using assms
  by (cases ev)
    (auto simp add: builder_simps keeps_vertices_def vertex_key_def num_vertices_def
      nth_append nth_condition_result split: list.splits if_splits prod.splits)

lemma top_vertex_open_edge:
  "top_vertex (open_edge b v kind p ts en) = v"
  by (simp add: open_edge_def add_edge_from_top_def mp_add_edge_def top_vertex_def get_target_def
      num_edges_def)

lemma open_edge_keeps:
  "element_vertex_map (open_edge b v kind p ts en) = element_vertex_map b \<and>
   mp_vertices (mb_mp (open_edge b v kind p ts en)) = mp_vertices (mb_mp b)"
  by (simp add: open_edge_def add_edge_from_top_def mp_add_edge_def)

lemma add_vertex_known:
  assumes "element_vertex_map b (node, sl) = Some v"
  shows "add_vertex b node sl = (b, v)"
  using assms by (simp add: add_vertex_def)

lemma add_vertex_new:
  assumes "element_vertex_map b (node, sl) = None"
  shows "\<exists>b1. add_vertex b node sl = (b1, num_vertices (mb_mp b)) \<and>
     element_vertex_map b1 = (element_vertex_map b)((node, sl) \<mapsto> num_vertices (mb_mp b)) \<and>
     mp_vertices (mb_mp b1) = mp_vertices (mb_mp b) @
       [\<lparr>vp_node = node, vp_source_location = sl, vp_condition_result = None\<rparr>]"
  using assms by (simp add: add_vertex_def mp_add_vertex_def)

lemma handle_template_begin_map:
  assumes ok: "map_ok b"
  shows "map_ok (handle_template_begin kind t p s ts b) \<and>
    keeps_vertices b (handle_template_begin kind t p s ts b) \<and>
    element_vertex_map b \<subseteq>\<^sub>m element_vertex_map (handle_template_begin kind t p s ts b) \<and>
    element_vertex_map (handle_template_begin kind t p s ts b) (type_node t, s) =
      Some (top_vertex (handle_template_begin kind t p s ts b)) \<and>
    dom (element_vertex_map (handle_template_begin kind t p s ts b)) =
      insert (type_node t, s) (dom (element_vertex_map b))"
proof (cases "element_vertex_map b (type_node t, s)")
  case (Some v)
  then have h: "handle_template_begin kind t p s ts b = open_edge b v kind p ts True"
    by (simp add: handle_template_begin_def add_vertex_known)
  from Some have "insert (type_node t, s) (dom (element_vertex_map b)) = dom (element_vertex_map b)"
    by auto
  with ok Some show ?thesis
    by (simp add: h top_vertex_open_edge open_edge_keeps map_ok_def keeps_vertices_def
        num_vertices_def vertex_key_def)
next
  case None
  from add_vertex_new [OF None] obtain b1 where
    av: "add_vertex b (type_node t) s = (b1, num_vertices (mb_mp b))" and
    m1: "element_vertex_map b1 = (element_vertex_map b)((type_node t, s) \<mapsto> num_vertices (mb_mp b))" and
    v1: "mp_vertices (mb_mp b1) = mp_vertices (mb_mp b) @
       [\<lparr>vp_node = type_node t, vp_source_location = s, vp_condition_result = None\<rparr>]"
    by blast
  let ?b' = "handle_template_begin kind t p s ts b"
  from av have h: "?b' = open_edge b1 (num_vertices (mb_mp b)) kind p ts True"
    by (simp add: handle_template_begin_def)
  have m: "element_vertex_map ?b' = (element_vertex_map b)((type_node t, s) \<mapsto> num_vertices (mb_mp b))"
    and vs: "mp_vertices (mb_mp ?b') = mp_vertices (mb_mp b) @
       [\<lparr>vp_node = type_node t, vp_source_location = s, vp_condition_result = None\<rparr>]"
    and tv: "top_vertex ?b' = num_vertices (mb_mp b)"
    by (simp_all add: h open_edge_keeps m1 v1 top_vertex_open_edge)
  have "map_ok ?b'"
    unfolding map_ok_def
  proof (intro allI impI)
    fix k v assume kv: "element_vertex_map ?b' k = Some v"
    show "v < num_vertices (mb_mp ?b') \<and> vertex_key (mb_mp ?b') v = k"
    proof (cases "k = (type_node t, s)")
      case True
      with kv m have "v = num_vertices (mb_mp b)" by simp
      with True show ?thesis by (simp add: num_vertices_def vertex_key_def vs)
    next
      case False
      with kv m have "element_vertex_map b k = Some v" by simp
      with ok have "v < num_vertices (mb_mp b)" and "vertex_key (mb_mp b) v = k"
        unfolding map_ok_def by blast+
      then show ?thesis by (simp add: num_vertices_def vertex_key_def vs nth_append)
    qed
  qed
  moreover have "keeps_vertices b ?b'"
    by (simp add: keeps_vertices_def num_vertices_def vertex_key_def vs nth_append)
  moreover from None have "element_vertex_map b \<subseteq>\<^sub>m element_vertex_map ?b'"
    by (auto simp add: m map_le_def)
  moreover have "element_vertex_map ?b' (type_node t, s) = Some (top_vertex ?b')"
    by (simp add: m tv)
  moreover have "dom (element_vertex_map ?b') = insert (type_node t, s) (dom (element_vertex_map b))"
    by (simp add: m)
  ultimately show ?thesis by blast
qed

lemma map_ok_kept:
  assumes "map_ok b" and "element_vertex_map b' = element_vertex_map b" and "keeps_vertices b b'"
  shows "map_ok b'"
  unfolding map_ok_def
proof (intro allI impI)
  fix k v assume "element_vertex_map b' k = Some v"
  with assms(2) have "element_vertex_map b k = Some v" by simp
  with assms(1) have v: "v < num_vertices (mb_mp b)" and k: "vertex_key (mb_mp b) v = k"
    unfolding map_ok_def by blast+
  from v assms(3) have "v < num_vertices (mb_mp b')" and "vertex_key (mb_mp b') v = vertex_key (mb_mp b) v"
    by (simp_all add: keeps_vertices_def)
  with k show "v < num_vertices (mb_mp b') \<and> vertex_key (mb_mp b') v = k" by simp
qed

lemma template_key_cases:
  obtains (template) kind t p s ts where "ev = ev_template_begin kind t p s ts"
      and "template_key ev = Some (type_node t, s)"
    | (other) "template_key ev = None"
  by (cases ev) simp_all

lemma handle_event_map:
  assumes ok: "map_ok b" and h: "handle_event ev b = Inr b'"
  shows "map_ok b' \<and> element_vertex_map b \<subseteq>\<^sub>m element_vertex_map b' \<and>
    (case template_key ev of
       None \<Rightarrow> dom (element_vertex_map b') = dom (element_vertex_map b)
     | Some key \<Rightarrow> element_vertex_map b' key = Some (top_vertex b') \<and>
         dom (element_vertex_map b') = insert key (dom (element_vertex_map b)))"
proof (cases ev rule: template_key_cases)
  case (template kind t p s ts)
  with h have b': "b' = handle_template_begin kind t p s ts b" by simp
  from handle_template_begin_map [OF ok, of kind t p s ts] template(2) show ?thesis
    by (simp add: b')
next
  case other
  from handle_other_event [OF other h] have m: "element_vertex_map b' = element_vertex_map b"
    and k: "keeps_vertices b b'" by simp_all
  from map_ok_kept [OF ok m k] m other show ?thesis by simp
qed

lemma run_events_map:
  assumes "map_ok b" and "run_events evs b = Inr bf"
  shows "map_ok bf \<and> element_vertex_map b \<subseteq>\<^sub>m element_vertex_map bf \<and>
    (\<forall>(k, v)\<in>set (template_begin_targets evs b). element_vertex_map bf k = Some v) \<and>
    dom (element_vertex_map bf) =
      dom (element_vertex_map b) \<union> fst ` set (template_begin_targets evs b)"
  using assms
proof (induction evs arbitrary: b)
  case Nil
  then show ?case by simp
next
  case (Cons ev evs)
  from Cons.prems(2) obtain b1 where h: "handle_event ev b = Inr b1"
    and r: "run_events evs b1 = Inr bf"
    by (cases "handle_event ev b") simp_all
  from handle_event_map [OF Cons.prems(1) h]
  have ok1: "map_ok b1" and le1: "element_vertex_map b \<subseteq>\<^sub>m element_vertex_map b1"
    and key: "case template_key ev of
       None \<Rightarrow> dom (element_vertex_map b1) = dom (element_vertex_map b)
     | Some key \<Rightarrow> element_vertex_map b1 key = Some (top_vertex b1) \<and>
         dom (element_vertex_map b1) = insert key (dom (element_vertex_map b))"
    by simp_all
  from Cons.IH [OF ok1 r]
  have okf: "map_ok bf" and le2: "element_vertex_map b1 \<subseteq>\<^sub>m element_vertex_map bf"
    and tg: "\<forall>(k, v)\<in>set (template_begin_targets evs b1). element_vertex_map bf k = Some v"
    and dm: "dom (element_vertex_map bf) =
      dom (element_vertex_map b1) \<union> fst ` set (template_begin_targets evs b1)"
    by simp_all
  from le1 le2 have le: "element_vertex_map b \<subseteq>\<^sub>m element_vertex_map bf" by (rule map_le_trans)
  show ?case
  proof (cases "template_key ev")
    case None
    with key h tg dm okf le show ?thesis by simp
  next
    case (Some k)
    with key have k1: "element_vertex_map b1 k = Some (top_vertex b1)"
      and d1: "dom (element_vertex_map b1) = insert k (dom (element_vertex_map b))"
      by simp_all
    from k1 le2 have "element_vertex_map bf k = Some (top_vertex b1)"
      unfolding map_le_def by (metis domI)
    with Some h tg dm d1 okf le show ?thesis by auto
  qed
qed


lemma handle_template_begin_onto:
  assumes "map_onto b" and pos: "0 < num_vertices (mb_mp b)"
  shows "map_onto (handle_template_begin kind t p s ts b)"
proof (cases "element_vertex_map b (type_node t, s)")
  case (Some v)
  then have h: "handle_template_begin kind t p s ts b = open_edge b v kind p ts True"
    by (simp add: handle_template_begin_def add_vertex_known)
  from assms show ?thesis
    by (simp add: h map_onto_def open_edge_keeps num_vertices_def)
next
  case None
  from add_vertex_new [OF None] obtain b1 where
    av: "add_vertex b (type_node t) s = (b1, num_vertices (mb_mp b))" and
    m1: "element_vertex_map b1 = (element_vertex_map b)((type_node t, s) \<mapsto> num_vertices (mb_mp b))" and
    v1: "mp_vertices (mb_mp b1) = mp_vertices (mb_mp b) @
       [\<lparr>vp_node = type_node t, vp_source_location = s, vp_condition_result = None\<rparr>]"
    by blast
  from av have h: "handle_template_begin kind t p s ts b =
      open_edge b1 (num_vertices (mb_mp b)) kind p ts True"
    by (simp add: handle_template_begin_def)
  let ?n = "num_vertices (mb_mp b)"
  from None have "ran ((element_vertex_map b)((type_node t, s) \<mapsto> ?n)) =
      insert ?n (ran (element_vertex_map b))"
    by simp
  also from assms(1) have "\<dots> = insert ?n {v. 0 < v \<and> v < ?n}"
    by (simp only: map_onto_def)
  also from pos have "\<dots> = {v. 0 < v \<and> v < Suc ?n}" by auto
  finally have r: "ran ((element_vertex_map b)((type_node t, s) \<mapsto> ?n)) =
      {v. 0 < v \<and> v < Suc ?n}" .
  have n': "num_vertices (mb_mp (open_edge b1 ?n kind p ts True)) = Suc ?n"
    by (simp add: num_vertices_def open_edge_keeps v1)
  have m': "element_vertex_map (open_edge b1 ?n kind p ts True) =
      (element_vertex_map b)((type_node t, s) \<mapsto> ?n)"
    by (simp only: open_edge_keeps m1)
  show ?thesis
    unfolding h map_onto_def m' n' by (rule r)
qed

lemma run_template_steps_onto:
  assumes "list_all is_template_step evs" and "map_onto b" and "0 < num_vertices (mb_mp b)"
    and "run_events evs b = Inr bf"
  shows "map_onto bf"
  using assms
proof (induction evs arbitrary: b)
  case Nil
  then show ?case by simp
next
  case (Cons ev evs)
  from Cons.prems(4) obtain b1 where h: "handle_event ev b = Inr b1"
    and r: "run_events evs b1 = Inr bf"
    by (cases "handle_event ev b") simp_all
  from Cons.prems(1) have ts: "is_template_step ev" and rest: "list_all is_template_step evs"
    by simp_all
  have "map_onto b1 \<and> 0 < num_vertices (mb_mp b1)"
  proof (cases ev)
    case (ev_template_begin kind t p s ts)
    with h have b1: "b1 = handle_template_begin kind t p s ts b" by simp
    from handle_template_begin_onto [OF Cons.prems(2,3)] have "map_onto b1" by (simp add: b1)
    moreover have "num_vertices (mb_mp b) \<le> num_vertices (mb_mp b1)"
      by (cases "element_vertex_map b (type_node t, s)")
        (simp_all add: b1 handle_template_begin_def add_vertex_def mp_add_vertex_def open_edge_def
          add_edge_from_top_def mp_add_edge_def num_vertices_def)
    ultimately show ?thesis using Cons.prems(3) by simp
  next
    case (ev_template_end ts)
    with h obtain e st where "edge_stack b = e # st" and "b1 = b\<lparr>edge_stack := st\<rparr>"
      by (cases "edge_stack b") (simp_all add: handle_template_end_def close_edge_def)
    with Cons.prems(2,3) show ?thesis by (simp add: map_onto_def)
  qed (use ts in simp_all)
  then have "map_onto b1" and "0 < num_vertices (mb_mp b1)" by simp_all
  with rest show ?case using r by (rule Cons.IH)
qed

text \<open>
  Claim C1: over a sequence of events that the builder handles, two begins of template
  steps lead to the same vertex exactly when they carry the same key (so begins with an
  identical kind, signature and source location share one vertex, and the same signature
  at another source location gets another vertex). The keys of the map are the keys
  observed, the map is a bijection between them and the vertices the begins lead to,
  every such vertex carries its key, and when the events are template steps only these
  vertices are all the vertices other than the root.
\<close>

theorem one_vertex_per_key:
  assumes "run_events evs (metaprogram_builder_init mode root_name root_source_location) = Inr b"
  shows "(\<forall>(k1, v1)\<in>set (template_begin_targets evs
              (metaprogram_builder_init mode root_name root_source_location)).
          \<forall>(k2, v2)\<in>set (template_begin_targets evs
              (metaprogram_builder_init mode root_name root_source_location)).
            (k1 = k2) = (v1 = v2)) \<and>
    dom (element_vertex_map b) =
      fst ` set (template_begin_targets evs
        (metaprogram_builder_init mode root_name root_source_location)) \<and>
    bij_betw (\<lambda>k. the (element_vertex_map b k))
      (dom (element_vertex_map b))
      (snd ` set (template_begin_targets evs
        (metaprogram_builder_init mode root_name root_source_location))) \<and>
    (\<forall>(k, v)\<in>set (template_begin_targets evs
              (metaprogram_builder_init mode root_name root_source_location)).
        v < num_vertices (get_metaprogram b) \<and> vertex_key (get_metaprogram b) v = k) \<and>
    (list_all is_template_step evs \<longrightarrow>
       snd ` set (template_begin_targets evs
         (metaprogram_builder_init mode root_name root_source_location)) =
       {v. 0 < v \<and> v < num_vertices (get_metaprogram b)})"
proof -
  let ?b0 = "metaprogram_builder_init mode root_name root_source_location"
  let ?T = "template_begin_targets evs ?b0"
  let ?m = "element_vertex_map b"
  have ok0: "map_ok ?b0" by (simp add: map_ok_def metaprogram_builder_init_def)
  from run_events_map [OF ok0 assms]
  have ok: "map_ok b" and tg: "\<forall>(k, v)\<in>set ?T. ?m k = Some v"
    and dm: "dom ?m = fst ` set ?T"
    by (simp_all add: metaprogram_builder_init_def)
  have key: "v < num_vertices (mb_mp b) \<and> vertex_key (mb_mp b) v = k" if "(k, v) \<in> set ?T" for k v
  proof -
    from that tg have "?m k = Some v" by blast
    with ok show ?thesis unfolding map_ok_def by blast
  qed
  have iff: "(k1 = k2) = (v1 = v2)" if "(k1, v1) \<in> set ?T" and "(k2, v2) \<in> set ?T" for k1 v1 k2 v2
  proof
    assume "k1 = k2"
    moreover from that tg have "?m k1 = Some v1" and "?m k2 = Some v2" by blast+
    ultimately show "v1 = v2" by simp
  next
    assume "v1 = v2"
    with key [OF that(1)] key [OF that(2)] show "k1 = k2" by simp
  qed
  have img: "(\<lambda>k. the (?m k)) ` dom ?m = snd ` set ?T"
  proof (intro set_eqI iffI)
    fix v assume "v \<in> (\<lambda>k. the (?m k)) ` dom ?m"
    then obtain k where k: "k \<in> dom ?m" and v: "v = the (?m k)" by blast
    from k dm have "k \<in> fst ` set ?T" by simp
    then obtain v' where kv: "(k, v') \<in> set ?T" by auto
    with tg have "?m k = Some v'" by blast
    with v kv show "v \<in> snd ` set ?T" by force
  next
    fix v assume "v \<in> snd ` set ?T"
    then obtain k where kv: "(k, v) \<in> set ?T" by force
    with tg have "?m k = Some v" by blast
    then have "k \<in> dom ?m" and "the (?m k) = v" by auto
    then show "v \<in> (\<lambda>k. the (?m k)) ` dom ?m" by blast
  qed
  have inj: "inj_on (\<lambda>k. the (?m k)) (dom ?m)"
  proof (rule inj_onI)
    fix k1 k2 assume k1: "k1 \<in> dom ?m" and k2: "k2 \<in> dom ?m"
      and eq: "the (?m k1) = the (?m k2)"
    from k1 obtain v1 where v1: "?m k1 = Some v1" by blast
    from k2 obtain v2 where v2: "?m k2 = Some v2" by blast
    from v1 v2 eq have "v1 = v2" by simp
    moreover from ok v1 have "vertex_key (mb_mp b) v1 = k1" unfolding map_ok_def by blast
    moreover from ok v2 have "vertex_key (mb_mp b) v2 = k2" unfolding map_ok_def by blast
    ultimately show "k1 = k2" by simp
  qed
  from inj img have bij: "bij_betw (\<lambda>k. the (?m k)) (dom ?m) (snd ` set ?T)"
    by (simp add: bij_betw_def)
  have onto: "snd ` set ?T = {v. 0 < v \<and> v < num_vertices (get_metaprogram b)}"
    if "list_all is_template_step evs"
  proof -
    have o0: "map_onto ?b0"
      by (auto simp add: map_onto_def metaprogram_builder_init_def num_vertices_def)
    have p0: "0 < num_vertices (mb_mp ?b0)"
      by (simp add: metaprogram_builder_init_def num_vertices_def)
    from that o0 p0 assms have "map_onto b" by (rule run_template_steps_onto)
    then have "ran ?m = {v. 0 < v \<and> v < num_vertices (get_metaprogram b)}"
      by (simp add: map_onto_def get_metaprogram_def)
    moreover have "ran ?m = (\<lambda>k. the (?m k)) ` dom ?m"
    proof (intro set_eqI iffI)
      fix v assume "v \<in> ran ?m"
      then obtain k where "?m k = Some v" unfolding ran_def by blast
      then have "k \<in> dom ?m" and "v = the (?m k)" by auto
      then show "v \<in> (\<lambda>k. the (?m k)) ` dom ?m" by (rule rev_image_eqI)
    next
      fix v assume "v \<in> (\<lambda>k. the (?m k)) ` dom ?m"
      then obtain k where "k \<in> dom ?m" and v: "v = the (?m k)" by blast
      then obtain v' where mk: "?m k = Some v'" by blast
      then have "v' \<in> ran ?m" by (rule ranI)
      with v mk show "v \<in> ran ?m" by simp
    qed
    ultimately show ?thesis using img by simp
  qed
  show ?thesis
  proof (intro conjI)
    show "\<forall>(k1, v1)\<in>set ?T. \<forall>(k2, v2)\<in>set ?T. (k1 = k2) = (v1 = v2)"
      using iff by blast
    show "dom ?m = fst ` set ?T" by (rule dm)
    show "bij_betw (\<lambda>k. the (?m k)) (dom ?m) (snd ` set ?T)" by (rule bij)
    show "\<forall>(k, v)\<in>set ?T. v < num_vertices (get_metaprogram b) \<and>
        vertex_key (get_metaprogram b) v = k"
      using key by (auto simp add: get_metaprogram_def)
    show "list_all is_template_step evs \<longrightarrow>
        snd ` set ?T = {v. 0 < v \<and> v < num_vertices (get_metaprogram b)}"
      using onto by blast
  qed
qed


theorem one_vertex_per_key_witness:
  "list_all is_template_step example_template_events \<and>
   template_begin_targets example_template_events example_builder =
     [((type_node ''X'', file_location ''a.hpp'' 1 1), 1),
      ((type_node ''Y'', file_location ''a.hpp'' 5 1), 2),
      ((type_node ''Z'', file_location ''a.hpp'' 9 1), 3),
      ((type_node ''Y'', file_location ''a.hpp'' 5 1), 2),
      ((type_node ''X'', file_location ''b.hpp'' 1 1), 4)] \<and>
   (\<exists>b. run_events example_template_events example_builder = Inr b \<and>
      dom (element_vertex_map b) =
        {(type_node ''X'', file_location ''a.hpp'' 1 1),
         (type_node ''Y'', file_location ''a.hpp'' 5 1),
         (type_node ''Z'', file_location ''a.hpp'' 9 1),
         (type_node ''X'', file_location ''b.hpp'' 1 1)} \<and>
      bij_betw (\<lambda>k. the (element_vertex_map b k)) (dom (element_vertex_map b)) {1, 2, 3, 4} \<and>
      {v. 0 < v \<and> v < num_vertices (get_metaprogram b)} = {1, 2, 3, 4} \<and>
      vertex_key (get_metaprogram b) 4 = (type_node ''X'', file_location ''b.hpp'' 1 1))"
proof -
  have ts: "list_all is_template_step example_template_events"
    by (simp add: example_template_events_def)
  from example_runs obtain b where run: "run_events example_template_events example_builder = Inr b" ..
  note inst = one_vertex_per_key [OF run [unfolded example_builder_def],
      folded example_builder_def, unfolded example_targets]
  from inst have dm: "dom (element_vertex_map b) =
        {(type_node ''X'', file_location ''a.hpp'' 1 1),
         (type_node ''Y'', file_location ''a.hpp'' 5 1),
         (type_node ''Z'', file_location ''a.hpp'' 9 1),
         (type_node ''X'', file_location ''b.hpp'' 1 1)}"
    by auto
  from inst have "bij_betw (\<lambda>k. the (element_vertex_map b k)) (dom (element_vertex_map b))
      (snd ` set [((type_node ''X'', file_location ''a.hpp'' 1 1), 1::nat),
      ((type_node ''Y'', file_location ''a.hpp'' 5 1), 2),
      ((type_node ''Z'', file_location ''a.hpp'' 9 1), 3),
      ((type_node ''Y'', file_location ''a.hpp'' 5 1), 2),
      ((type_node ''X'', file_location ''b.hpp'' 1 1), 4)])"
    by blast
  moreover have "snd ` set [((type_node ''X'', file_location ''a.hpp'' 1 1), 1::nat),
      ((type_node ''Y'', file_location ''a.hpp'' 5 1), 2),
      ((type_node ''Z'', file_location ''a.hpp'' 9 1), 3),
      ((type_node ''Y'', file_location ''a.hpp'' 5 1), 2),
      ((type_node ''X'', file_location ''b.hpp'' 1 1), 4)] = {1, 2, 3, 4}"
    by auto
  ultimately have bij: "bij_betw (\<lambda>k. the (element_vertex_map b k)) (dom (element_vertex_map b))
      {1, 2, 3, 4}"
    by simp
  from inst ts have "snd ` set [((type_node ''X'', file_location ''a.hpp'' 1 1), 1::nat),
      ((type_node ''Y'', file_location ''a.hpp'' 5 1), 2),
      ((type_node ''Z'', file_location ''a.hpp'' 9 1), 3),
      ((type_node ''Y'', file_location ''a.hpp'' 5 1), 2),
      ((type_node ''X'', file_location ''b.hpp'' 1 1), 4)] =
      {v. 0 < v \<and> v < num_vertices (get_metaprogram b)}"
    by blast
  then have on: "{v. 0 < v \<and> v < num_vertices (get_metaprogram b)} = {1, 2, 3, 4}"
    by auto
  from inst have key: "vertex_key (get_metaprogram b) 4 = (type_node ''X'', file_location ''b.hpp'' 1 1)"
    by simp
  from run dm bij on key have "\<exists>b. run_events example_template_events example_builder = Inr b \<and>
      dom (element_vertex_map b) =
        {(type_node ''X'', file_location ''a.hpp'' 1 1),
         (type_node ''Y'', file_location ''a.hpp'' 5 1),
         (type_node ''Z'', file_location ''a.hpp'' 9 1),
         (type_node ''X'', file_location ''b.hpp'' 1 1)} \<and>
      bij_betw (\<lambda>k. the (element_vertex_map b k)) (dom (element_vertex_map b)) {1, 2, 3, 4} \<and>
      {v. 0 < v \<and> v < num_vertices (get_metaprogram b)} = {1, 2, 3, 4} \<and>
      vertex_key (get_metaprogram b) 4 = (type_node ''X'', file_location ''b.hpp'' 1 1)"
    by blast
  with ts example_targets show ?thesis by blast
qed

end
